theory Spec2Isabelle
  imports Main "HOL-Library.Word" "HOL-Library.Multiset"
begin

section \<open>Reductions\<close>

subsection \<open>Counted loops\<close>

text \<open>
  The index type is \<^verbatim>\<open>int\<close>, as in \<^verbatim>\<open>parallel_reduce(0, N, 0, \<dots>)\<close>; an index is
  given as the integer it stands for, and \<open>is_int\<close> says that an integer is a value of
  the type. The reductions compute one difference, \<^verbatim>\<open>end - start\<close>, and one product,
  \<^verbatim>\<open>num_threads_ * 2\<close>, that can leave the type; signed overflow is undefined
  behaviour, and it is checked where the code computes them. Every other index the code
  computes lies between two values it already holds: a loop counter between the bounds of
  its loop, the chunk size and the remainder between 0 and the length of the range, the
  bounds of a partition between \<^verbatim>\<open>start\<close> and \<^verbatim>\<open>end\<close>.
\<close>

definition is_int :: "int \<Rightarrow> bool" where
  "is_int x = (- 2147483648 \<le> x \<and> x \<le> 2147483647)"

text \<open>
  \<^verbatim>\<open>for (IndexType i = start; i < end; ++i) body(i)\<close> on a state \<open>s\<close>.
\<close>

function for_loop :: "int \<Rightarrow> int \<Rightarrow> (int \<Rightarrow> 's \<Rightarrow> 's) \<Rightarrow> 's \<Rightarrow> 's" where
  "for_loop i end body s = (if i < end then for_loop (i + 1) end body (body i s) else s)"
  by pat_completeness auto
termination
  by (relation "measure (\<lambda>(i, end, body, s). nat (end - i))") auto

declare for_loop.simps [simp del]

subsection \<open>parallel\_reduce of parallel\_utils.h\<close>

text \<open>
  \<^verbatim>\<open>get_num_threads()\<close>: the hardware concurrency, or 1 when the platform reports 0.
\<close>

definition get_num_threads :: "nat \<Rightarrow> int" where
  "get_num_threads hardware_concurrency =
     (if hardware_concurrency > 0 then int hardware_concurrency else 1)"

text \<open>
  The loop that hands out one contiguous partition per thread: the first
  \<^verbatim>\<open>remainder\<close> partitions are one longer than \<^verbatim>\<open>chunk_size\<close>. The same loop, with
  the same names, is the static branch of \<^verbatim>\<open>parallel_for_executor::execute\<close> in
  parallel\_framework.h. The result lists the partitions in the order in which their
  futures are pushed.
\<close>

function spawn_partitions :: "int \<Rightarrow> int \<Rightarrow> int \<Rightarrow> int \<Rightarrow> int \<Rightarrow> (int \<times> int) list" where
  "spawn_partitions t num_threads chunk_size remainder current_start =
     (if t < num_threads
      then let current_end = current_start + chunk_size + (if t < remainder then 1 else 0)
           in (current_start, current_end)
                # spawn_partitions (t + 1) num_threads chunk_size remainder current_end
      else [])"
  by pat_completeness auto
termination
  by (relation "measure (\<lambda>(t, num_threads, c, r, s). nat (num_threads - t))") auto

declare spawn_partitions.simps [simp del]

text \<open>The task of one partition: fold its indices from \<^verbatim>\<open>identity\<close>.\<close>

definition local_fold :: "('a \<Rightarrow> 'a \<Rightarrow> 'a) \<Rightarrow> (int \<Rightarrow> 'a) \<Rightarrow> 'a \<Rightarrow> int \<times> int \<Rightarrow> 'a" where
  "local_fold reduce_op transform_op identity p =
     for_loop (fst p) (snd p) (\<lambda>i local_result. reduce_op local_result (transform_op i)) identity"

text \<open>
  \<^verbatim>\<open>parallel_reduce(start, end, identity, reduce_op, transform_op, num_threads)\<close>. The
  futures are awaited with \<^verbatim>\<open>get()\<close> in the order of the vector, whatever the order in
  which the tasks finish, so the value is a function of the arguments and of the hardware
  concurrency alone. \<open>None\<close> is the undefined behaviour of a difference \<^verbatim>\<open>end - start\<close>
  that is not an \<^verbatim>\<open>int\<close>. The value type \<^verbatim>\<open>T\<close> and its arithmetic come with the
  arguments \<^verbatim>\<open>identity\<close>, \<^verbatim>\<open>reduce_op\<close> and \<^verbatim>\<open>transform_op\<close>.
\<close>

definition parallel_reduce ::
  "nat \<Rightarrow> int \<Rightarrow> int \<Rightarrow> 'a \<Rightarrow> ('a \<Rightarrow> 'a \<Rightarrow> 'a) \<Rightarrow> (int \<Rightarrow> 'a) \<Rightarrow> int \<Rightarrow> 'a option" where
  "parallel_reduce hardware_concurrency start end identity reduce_op transform_op num_threads0 =
     (let num_threads = (if num_threads0 \<le> 0 then get_num_threads hardware_concurrency
                         else num_threads0)
      in if \<not> is_int (end - start) then None
         else let total_work = end - start
              in if total_work \<le> 0 then Some identity
                 else if total_work < num_threads \<or> num_threads = 1
                 then Some (local_fold reduce_op transform_op identity (start, end))
                 else let chunk_size = total_work div num_threads;
                          remainder = total_work mod num_threads;
                          futures = map (local_fold reduce_op transform_op identity)
                                      (spawn_partitions 0 num_threads chunk_size remainder start)
                      in Some (foldl reduce_op identity futures))"

subsection \<open>parallel\_reduce of diskann\_parallel.h (thread-pool branch)\<close>

text \<open>
  The iterator range is a list; \<^verbatim>\<open>it\<close> is the part of it not yet handed out. Every
  chunk but the last has \<^verbatim>\<open>chunk_size\<close> elements, the last takes the rest.
\<close>

function reduce_chunks :: "nat \<Rightarrow> nat \<Rightarrow> nat \<Rightarrow> 'a list \<Rightarrow> 'a list list" where
  "reduce_chunks t num_threads chunk_size it =
     (if t < num_threads
      then let chunk = (if t = num_threads - 1 then it else take chunk_size it);
               chunk_end = (if t = num_threads - 1 then [] else drop chunk_size it)
           in chunk # reduce_chunks (t + 1) num_threads chunk_size chunk_end
      else [])"
  by pat_completeness auto
termination
  by (relation "measure (\<lambda>(t, num_threads, c, it). num_threads - t)") auto

declare reduce_chunks.simps [simp del]

text \<open>
  \<^verbatim>\<open>parallel_reduce(first, last, init, op)\<close> with a pool of \<^verbatim>\<open>num_threads\<close> workers;
  \<^verbatim>\<open>std::accumulate\<close> is \<open>foldl\<close>.
\<close>

definition parallel_reduce_iter :: "nat \<Rightarrow> 'a list \<Rightarrow> 'a \<Rightarrow> ('a \<Rightarrow> 'a \<Rightarrow> 'a) \<Rightarrow> 'a" where
  "parallel_reduce_iter num_threads xs init op =
     (let distance = length xs
      in if distance > 1000 \<and> num_threads > 1
         then let chunk_size = distance div num_threads;
                  futures = map (foldl op init) (reduce_chunks 0 num_threads chunk_size xs)
              in foldl op init futures
         else foldl op init xs)"

subsection \<open>parallel\_reduce of parallel\_framework.h\<close>

text \<open>
  \<^verbatim>\<open>parallel_for_executor::execute\<close> with static scheduling, as \<^verbatim>\<open>parallel_reduce\<close>
  calls it. What matters to the reduction is which thread runs which indices: the
  result lists, per thread of control, its runtime thread id and the index interval it
  walks through. On the sequential path that is the calling thread with the whole range;
  otherwise partition \<open>t\<close> runs on a fresh \<^verbatim>\<open>std::async\<close> thread whose runtime id
  (\<^verbatim>\<open>get_thread_num()\<close>, handed out by a process-wide counter on first use) is
  \<open>worker_tid t\<close>; the ids are natural numbers, the counter not having wrapped.
  \<open>global\<close> is the value of \<^verbatim>\<open>get_global_num_threads()\<close>. A thread count of zero reaches
  \<^verbatim>\<open>total_work / num_threads_\<close>, which is undefined: \<open>None\<close>; so are a difference
  \<^verbatim>\<open>end_ - start_\<close> and a product \<^verbatim>\<open>num_threads_ * 2\<close> that are not an \<^verbatim>\<open>int\<close>.
\<close>

definition fw_execute ::
  "nat \<Rightarrow> nat \<Rightarrow> (nat \<Rightarrow> nat) \<Rightarrow> int \<Rightarrow> int \<Rightarrow> int \<Rightarrow> (nat \<times> int \<times> int) list option" where
  "fw_execute global caller_tid worker_tid start end num_threads0 =
     (let num_threads = (if num_threads0 > 0 then num_threads0 else int global)
      in if end \<le> start then Some []
         else if \<not> is_int (end - start) then None
         else let total_work = end - start
              in if \<not> is_int (num_threads * 2) then None
                 else if total_work < num_threads * 2 \<or> num_threads = 1
                 then Some [(caller_tid, start, end)]
                 else if num_threads = 0 then None
                 else let chunk_size = total_work div num_threads;
                          remainder = total_work mod num_threads;
                          parts = spawn_partitions 0 num_threads chunk_size remainder start
                      in Some (map (\<lambda>t. (worker_tid t, parts ! t)) [0..<length parts]))"

text \<open>
  The loop body of the reduction, run by one thread over its interval:
  \<^verbatim>\<open>tid = get_thread_num() % num_threads;
  partial_results[tid] = reduce_op(partial_results[tid], transform_op(i))\<close>.
\<close>

definition fw_accumulate ::
  "('a \<Rightarrow> 'a \<Rightarrow> 'a) \<Rightarrow> (int \<Rightarrow> 'a) \<Rightarrow> int \<Rightarrow> 'a list \<Rightarrow> nat \<times> int \<times> int \<Rightarrow> 'a list" where
  "fw_accumulate reduce_op transform_op num_threads partial_results run =
     (let tid = nat (int (fst run) mod num_threads)
      in partial_results[tid :=
           for_loop (fst (snd run)) (snd (snd run))
             (\<lambda>i r. reduce_op r (transform_op i)) (partial_results ! tid)])"

text \<open>
  \<^verbatim>\<open>parallel_reduce(start, end, identity, transform_op, reduce_op, num_threads)\<close>. Two
  threads whose ids fall into the same slot update it without synchronisation, a data
  race: \<open>None\<close>, as is a difference \<^verbatim>\<open>end - start\<close> that is not an \<^verbatim>\<open>int\<close>. Otherwise the threads work on different slots and their updates
  commute, so they are applied one thread after the other.
\<close>

definition fw_parallel_reduce ::
  "nat \<Rightarrow> nat \<Rightarrow> (nat \<Rightarrow> nat) \<Rightarrow> int \<Rightarrow> int \<Rightarrow> 'a \<Rightarrow> (int \<Rightarrow> 'a) \<Rightarrow> ('a \<Rightarrow> 'a \<Rightarrow> 'a) \<Rightarrow> int
     \<Rightarrow> 'a option" where
  "fw_parallel_reduce global caller_tid worker_tid start end identity transform_op reduce_op
       num_threads0 =
     (let num_threads = (if num_threads0 \<le> 0 then int global else num_threads0)
      in if \<not> is_int (end - start) then None
         else let total_work = end - start
              in if total_work \<le> 0 then Some identity
                 else case fw_execute global caller_tid worker_tid start end num_threads of
                        None \<Rightarrow> None
                      | Some runs \<Rightarrow>
                          if \<not> distinct (map (\<lambda>run. int (fst run) mod num_threads) runs) then None
                          else Some (foldl reduce_op identity
                                 (foldl (fw_accumulate reduce_op transform_op num_threads)
                                    (replicate (nat num_threads) identity) runs)))"

text \<open>The thread count the framework's reduction settles on.\<close>

definition resolve_threads :: "nat \<Rightarrow> int \<Rightarrow> int" where
  "resolve_threads global num_threads = (if num_threads \<le> 0 then int global else num_threads)"

section \<open>The parallel-for family of diskann\_parallel.h (thread-pool branch)\<close>

text \<open>
  Indices are natural numbers: the functions of this section compute with unbounded
  indices, which is what the code does while no index sum leaves the range of
  \<^verbatim>\<open>IndexType\<close> (the tests instantiate it with \<^verbatim>\<open>size_t\<close>). The three entry
  points with the 64-bit arithmetic of \<^verbatim>\<open>size_t\<close> follow in the last subsection.
  The body \<^verbatim>\<open>fn\<close> is observed through the sequence of indices it is invoked on;
  \<open>raises i\<close> says that \<^verbatim>\<open>fn(i)\<close> throws. An error is the exception of a task
  body, or the division by zero that the default chunk size can run into.
\<close>

datatype error = TaskFailure nat | DivisionByZero

subsection \<open>Tasks with a fixed chunk\<close>

text \<open>
  A task enqueued by \<^verbatim>\<open>parallel_for\<close> or \<^verbatim>\<open>parallel_for_static\<close> is the loop
  \<^verbatim>\<open>for (i = chunk_start; i < chunk_end; ++i) fn(i)\<close>, kept as the list of indices it has
  still to visit. One step of task \<open>t\<close> invokes \<^verbatim>\<open>fn\<close> on its next index. When that
  call throws, the \<^verbatim>\<open>std::packaged_task\<close> made by \<^verbatim>\<open>ThreadPool::enqueue\<close> stores the
  exception in the shared state of the future and the task is over, its remaining
  indices unvisited; the worker goes on with its loop. The state is the list of tasks
  and the sequence of invocations so far.
\<close>

fun task_step ::
  "(nat \<Rightarrow> bool) \<Rightarrow> nat \<Rightarrow> nat list list \<times> nat list \<Rightarrow> (nat list list \<times> nat list) option" where
  "task_step raises t (tasks, trace) =
     (if t < length tasks
      then (case tasks ! t of
              [] \<Rightarrow> None
            | i # rest \<Rightarrow> Some (tasks[t := (if raises i then [] else rest)], trace @ [i]))
      else None)"

text \<open>
  The pool runs the tasks concurrently. A schedule names, step by step, the task that
  moves next; every execution on a pool of any size is such an interleaving. A schedule
  that names a task with nothing left to do is not an execution: \<open>None\<close>.
\<close>

fun run_tasks ::
  "(nat \<Rightarrow> bool) \<Rightarrow> nat list \<Rightarrow> nat list list \<times> nat list \<Rightarrow> (nat list list \<times> nat list) option" where
  "run_tasks raises [] s = Some s"
| "run_tasks raises (t # sched) s =
     (case task_step raises t s of None \<Rightarrow> None | Some s' \<Rightarrow> run_tasks raises sched s')"

text \<open>
  \<^verbatim>\<open>for (auto& future : futures) future.wait()\<close>: the caller gets past the loop once
  every task is over. \<^verbatim>\<open>wait()\<close> does not rethrow a stored exception. The value is the
  sequence of invocations of an execution that runs to that point.
\<close>

definition await_all :: "(nat \<Rightarrow> bool) \<Rightarrow> nat list \<Rightarrow> (nat \<times> nat) list \<Rightarrow> nat list option" where
  "await_all raises sched futures =
     (case run_tasks raises sched (map (\<lambda>c. [fst c..<snd c]) futures, []) of
        None \<Rightarrow> None
      | Some s \<Rightarrow> if concat (fst s) = [] then Some (snd s) else None)"

text \<open>
  The sequential fallback runs in the caller's context: an exception of \<^verbatim>\<open>fn\<close> leaves
  the loop and the function.
\<close>

fun sequential :: "(nat \<Rightarrow> bool) \<Rightarrow> nat list \<Rightarrow> nat list \<Rightarrow> (error + unit) \<times> nat list" where
  "sequential raises [] trace = (Inr (), trace)"
| "sequential raises (i # rest) trace =
     (if raises i then (Inl (TaskFailure i), trace @ [i])
      else sequential raises rest (trace @ [i]))"

subsection \<open>parallel\_for\<close>

text \<open>The loop over \<^verbatim>\<open>t\<close> that enqueues one task per non-empty chunk.\<close>

function spawn_chunks :: "nat \<Rightarrow> nat \<Rightarrow> nat \<Rightarrow> nat \<Rightarrow> nat \<Rightarrow> (nat \<times> nat) list" where
  "spawn_chunks t num_threads start end chunk_size =
     (if t < num_threads
      then let chunk_start = start + t * chunk_size;
               chunk_end = min (chunk_start + chunk_size) end
           in (if chunk_start < chunk_end then [(chunk_start, chunk_end)] else [])
                @ spawn_chunks (t + 1) num_threads start end chunk_size
      else [])"
  by pat_completeness auto
termination
  by (relation "measure (\<lambda>(t, num_threads, s, e, c). num_threads - t)") auto

declare spawn_chunks.simps [simp del]

text \<open>
  \<^verbatim>\<open>parallel_for(start, end, fn)\<close> on a pool of \<^verbatim>\<open>num_threads\<close> workers, under a
  schedule. The result is how the call ends (normally, or with the exception that leaves
  it) and the sequence of invocations of \<^verbatim>\<open>fn\<close>; \<open>None\<close> when the schedule is not an
  execution of the call up to its return.
\<close>

definition parallel_for ::
  "nat \<Rightarrow> (nat \<Rightarrow> bool) \<Rightarrow> nat \<Rightarrow> nat \<Rightarrow> nat list \<Rightarrow> ((error + unit) \<times> nat list) option" where
  "parallel_for num_threads raises start end sched =
     (if start \<ge> end then Some (Inr (), [])
      else let range = end - start
           in if range > 1000 \<and> num_threads > 1
              then let chunk_size = (range + num_threads - 1) div num_threads;
                       futures = spawn_chunks 0 num_threads start end chunk_size
                   in (case await_all raises sched futures of
                         None \<Rightarrow> None
                       | Some trace \<Rightarrow> Some (Inr (), trace))
              else Some (sequential raises [start..<end] []))"

subsection \<open>parallel\_for\_static\<close>

text \<open>
  \<^verbatim>\<open>for (i = start; i < end; i += chunk_size)\<close>, one task per round. The loop does not
  end when \<^verbatim>\<open>chunk_size\<close> is zero, so it is a partial function: \<open>None\<close> is the loop
  that never finishes.
\<close>

partial_function (option) static_chunks ::
  "nat \<Rightarrow> nat \<Rightarrow> nat \<Rightarrow> (nat \<times> nat) list \<Rightarrow> (nat \<times> nat) list option" where
  "static_chunks i end chunk_size futures =
     (if i < end
      then static_chunks (i + chunk_size) end chunk_size
             (futures @ [(i, min (i + chunk_size) end)])
      else Some futures)"

declare static_chunks.simps [code]

text \<open>
  The chunk size after \<^verbatim>\<open>if (chunk_size == 0) chunk_size = std::max<IndexType>(1,
  (end - start) / (get_active_threads() * 4))\<close>. \<open>active_threads\<close> is the calling
  thread's \<^verbatim>\<open>get_active_threads()\<close>, an \<^verbatim>\<open>unsigned int\<close>: the product with 4 wraps
  at \<open>2^32\<close>.
\<close>

definition auto_chunk_size :: "nat \<Rightarrow> nat \<Rightarrow> nat \<Rightarrow> nat \<Rightarrow> nat" where
  "auto_chunk_size active_threads start end chunk_size =
     (if chunk_size = 0
      then max 1 ((end - start) div ((active_threads * 4) mod 2 ^ 32))
      else chunk_size)"

text \<open>
  \<^verbatim>\<open>parallel_for_static(start, end, fn, chunk_size = 0)\<close>. Dividing by a product of
  zero is undefined behaviour, reported as an error of its own.
\<close>

definition parallel_for_static ::
  "nat \<Rightarrow> nat \<Rightarrow> (nat \<Rightarrow> bool) \<Rightarrow> nat \<Rightarrow> nat \<Rightarrow> nat \<Rightarrow> nat list
     \<Rightarrow> ((error + unit) \<times> nat list) option" where
  "parallel_for_static active_threads num_threads raises start end chunk_size0 sched =
     (if start \<ge> end then Some (Inr (), [])
      else if chunk_size0 = 0 \<and> (active_threads * 4) mod 2 ^ 32 = 0
      then Some (Inl DivisionByZero, [])
      else let chunk_size = auto_chunk_size active_threads start end chunk_size0;
               range = end - start
           in if range > chunk_size \<and> num_threads > 1
              then (case static_chunks start end chunk_size [] of
                      None \<Rightarrow> None
                    | Some futures \<Rightarrow>
                        (case await_all raises sched futures of
                           None \<Rightarrow> None
                         | Some trace \<Rightarrow> Some (Inr (), trace)))
              else Some (sequential raises [start..<end] []))"

subsection \<open>parallel\_for\_dynamic\<close>

text \<open>
  Each of the \<^verbatim>\<open>num_threads\<close> tasks is the loop
  \<^verbatim>\<open>while (true) { chunk_start = next_chunk.fetch_add(chunk_size);
  if (chunk_start >= end) break; ... }\<close>
  on the shared atomic cursor. A task is about to claim, inside a chunk (with the indices
  it has still to visit), or over. The body does not throw in this model.
\<close>

datatype claimer = Claim | Visit "nat list" | Finished

record dynamic_state =
  next_chunk :: nat
  claimers :: "claimer list"
  visited :: "nat list"

text \<open>
  One atomic action of task \<open>t\<close>: the fetch-and-add with the exit test and the bounds of
  the chunk, one invocation of \<^verbatim>\<open>fn\<close>, or the end of the inner loop.
\<close>

definition dynamic_step :: "nat \<Rightarrow> nat \<Rightarrow> nat \<Rightarrow> dynamic_state \<Rightarrow> dynamic_state option" where
  "dynamic_step end chunk_size t s =
     (if t < length (claimers s)
      then (case claimers s ! t of
              Finished \<Rightarrow> None
            | Claim \<Rightarrow>
                (let chunk_start = next_chunk s;
                     chunk_end = min (chunk_start + chunk_size) end
                 in Some (s\<lparr>next_chunk := chunk_start + chunk_size,
                            claimers := (claimers s)[t :=
                              (if chunk_start \<ge> end then Finished
                               else Visit [chunk_start..<chunk_end])]\<rparr>))
            | Visit [] \<Rightarrow> Some (s\<lparr>claimers := (claimers s)[t := Claim]\<rparr>)
            | Visit (i # rest) \<Rightarrow>
                Some (s\<lparr>claimers := (claimers s)[t := Visit rest], visited := visited s @ [i]\<rparr>))
      else None)"

fun run_dynamic :: "nat \<Rightarrow> nat \<Rightarrow> nat list \<Rightarrow> dynamic_state \<Rightarrow> dynamic_state option" where
  "run_dynamic end chunk_size [] s = Some s"
| "run_dynamic end chunk_size (t # sched) s =
     (case dynamic_step end chunk_size t s of
        None \<Rightarrow> None
      | Some s' \<Rightarrow> run_dynamic end chunk_size sched s')"

definition all_finished :: "dynamic_state \<Rightarrow> bool" where
  "all_finished s = (filter (\<lambda>c. c \<noteq> Finished) (claimers s) = [])"

text \<open>
  \<^verbatim>\<open>parallel_for_dynamic(start, end, fn, chunk_size = 1)\<close> under a schedule: the
  sequence of invocations when the call returns, \<open>None\<close> when the schedule is not an
  execution of the call up to its return.
\<close>

definition parallel_for_dynamic :: "nat \<Rightarrow> nat \<Rightarrow> nat \<Rightarrow> nat \<Rightarrow> nat list \<Rightarrow> nat list option" where
  "parallel_for_dynamic num_threads start end chunk_size sched =
     (if start \<ge> end then Some []
      else if (end - start) > chunk_size \<and> num_threads > 1
      then (case run_dynamic end chunk_size sched
                   \<lparr>next_chunk = start, claimers = replicate num_threads Claim, visited = []\<rparr> of
              None \<Rightarrow> None
            | Some s \<Rightarrow> if all_finished s then Some (visited s) else None)
      else Some [start..<end])"

text \<open>
  The body writing to one output slot per index: \<^verbatim>\<open>fn(i)\<close> stores \<open>g i\<close> in slot
  \<open>i\<close>. The outcome of a sequence of invocations is the store it leaves behind.
\<close>

definition write_slots :: "(nat \<Rightarrow> 'a) \<Rightarrow> nat list \<Rightarrow> (nat \<rightharpoonup> 'a) \<Rightarrow> (nat \<rightharpoonup> 'a)" where
  "write_slots g trace m = foldl (\<lambda>m i. m(i \<mapsto> g i)) m trace"

subsection \<open>The three entry points with 64-bit indices\<close>

text \<open>
  \<^verbatim>\<open>parallel_for\<close> with \<^verbatim>\<open>IndexType = size_t\<close> as a 64-bit word:
  \<^verbatim>\<open>end - start\<close>, \<^verbatim>\<open>range + num_threads - 1\<close>, \<^verbatim>\<open>start + t * chunk_size\<close> and
  \<^verbatim>\<open>chunk_start + chunk_size\<close> are computed modulo \<open>2^64\<close>, the comparisons are
  unsigned. The loop counter \<^verbatim>\<open>t\<close> stays below the pool size. The tasks and the
  sequence of invocations are as before, each index given as the natural number it
  stands for.
\<close>

function spawn_chunks_size_t ::
  "nat \<Rightarrow> nat \<Rightarrow> 64 word \<Rightarrow> 64 word \<Rightarrow> 64 word \<Rightarrow> (64 word \<times> 64 word) list" where
  "spawn_chunks_size_t t num_threads start end chunk_size =
     (if t < num_threads
      then let chunk_start = start + word_of_nat t * chunk_size;
               chunk_end = min (chunk_start + chunk_size) end
           in (if chunk_start < chunk_end then [(chunk_start, chunk_end)] else [])
                @ spawn_chunks_size_t (t + 1) num_threads start end chunk_size
      else [])"
  by pat_completeness auto
termination
  by (relation "measure (\<lambda>(t, num_threads, s, e, c). num_threads - t)") auto

declare spawn_chunks_size_t.simps [simp del]

definition parallel_for_size_t ::
  "nat \<Rightarrow> (nat \<Rightarrow> bool) \<Rightarrow> 64 word \<Rightarrow> 64 word \<Rightarrow> nat list
     \<Rightarrow> ((error + unit) \<times> nat list) option" where
  "parallel_for_size_t num_threads raises start end sched =
     (if start \<ge> end then Some (Inr (), [])
      else let range = end - start
           in if range > 1000 \<and> num_threads > 1
              then let chunk_size = (range + word_of_nat num_threads - 1) div word_of_nat num_threads;
                       futures = spawn_chunks_size_t 0 num_threads start end chunk_size
                   in (case await_all raises sched (map (\<lambda>c. (unat (fst c), unat (snd c))) futures) of
                         None \<Rightarrow> None
                       | Some trace \<Rightarrow> Some (Inr (), trace))
              else Some (sequential raises [unat start..<unat end] []))"

text \<open>
  The tasks of \<^verbatim>\<open>parallel_for_dynamic\<close> with \<^verbatim>\<open>IndexType = size_t\<close>: the cursor is a
  \<^verbatim>\<open>std::atomic<size_t>\<close>, kept as the natural number below \<open>2^64\<close> it stands for;
  \<^verbatim>\<open>fetch_add\<close> and \<^verbatim>\<open>chunk_start + chunk_size\<close> are computed modulo \<open>2^64\<close>.
\<close>

definition dynamic_step_size_t :: "nat \<Rightarrow> nat \<Rightarrow> nat \<Rightarrow> dynamic_state \<Rightarrow> dynamic_state option" where
  "dynamic_step_size_t end chunk_size t s =
     (if t < length (claimers s)
      then (case claimers s ! t of
              Finished \<Rightarrow> None
            | Claim \<Rightarrow>
                (let chunk_start = next_chunk s;
                     chunk_end = min ((chunk_start + chunk_size) mod 2 ^ 64) end
                 in Some (s\<lparr>next_chunk := (chunk_start + chunk_size) mod 2 ^ 64,
                            claimers := (claimers s)[t :=
                              (if chunk_start \<ge> end then Finished
                               else Visit [chunk_start..<chunk_end])]\<rparr>))
            | Visit [] \<Rightarrow> Some (s\<lparr>claimers := (claimers s)[t := Claim]\<rparr>)
            | Visit (i # rest) \<Rightarrow>
                Some (s\<lparr>claimers := (claimers s)[t := Visit rest], visited := visited s @ [i]\<rparr>))
      else None)"

fun run_dynamic_size_t :: "nat \<Rightarrow> nat \<Rightarrow> nat list \<Rightarrow> dynamic_state \<Rightarrow> dynamic_state option" where
  "run_dynamic_size_t end chunk_size [] s = Some s"
| "run_dynamic_size_t end chunk_size (t # sched) s =
     (case dynamic_step_size_t end chunk_size t s of
        None \<Rightarrow> None
      | Some s' \<Rightarrow> run_dynamic_size_t end chunk_size sched s')"

definition parallel_for_dynamic_size_t :: "nat \<Rightarrow> nat \<Rightarrow> nat \<Rightarrow> nat \<Rightarrow> nat list \<Rightarrow> nat list option" where
  "parallel_for_dynamic_size_t num_threads start end chunk_size sched =
     (if start \<ge> end then Some []
      else if (end - start) > chunk_size \<and> num_threads > 1
      then (case run_dynamic_size_t end chunk_size sched
                   \<lparr>next_chunk = start, claimers = replicate num_threads Claim, visited = []\<rparr> of
              None \<Rightarrow> None
            | Some s \<Rightarrow> if all_finished s then Some (visited s) else None)
      else Some [start..<end])"

text \<open>
  \<^verbatim>\<open>parallel_for_static\<close> with \<^verbatim>\<open>IndexType = size_t\<close>, the indices again as natural
  numbers below \<open>2^64\<close>: \<^verbatim>\<open>i += chunk_size\<close> and \<^verbatim>\<open>i + chunk_size\<close> are computed
  modulo \<open>2^64\<close>.
\<close>

partial_function (option) static_chunks_size_t ::
  "nat \<Rightarrow> nat \<Rightarrow> nat \<Rightarrow> (nat \<times> nat) list \<Rightarrow> (nat \<times> nat) list option" where
  "static_chunks_size_t i end chunk_size futures =
     (if i < end
      then static_chunks_size_t ((i + chunk_size) mod 2 ^ 64) end chunk_size
             (futures @ [(i, min ((i + chunk_size) mod 2 ^ 64) end)])
      else Some futures)"

definition parallel_for_static_size_t ::
  "nat \<Rightarrow> nat \<Rightarrow> (nat \<Rightarrow> bool) \<Rightarrow> nat \<Rightarrow> nat \<Rightarrow> nat \<Rightarrow> nat list
     \<Rightarrow> ((error + unit) \<times> nat list) option" where
  "parallel_for_static_size_t active_threads num_threads raises start end chunk_size0 sched =
     (if start \<ge> end then Some (Inr (), [])
      else if chunk_size0 = 0 \<and> (active_threads * 4) mod 2 ^ 32 = 0
      then Some (Inl DivisionByZero, [])
      else let chunk_size = auto_chunk_size active_threads start end chunk_size0;
               range = end - start
           in if range > chunk_size \<and> num_threads > 1
              then (case static_chunks_size_t start end chunk_size [] of
                      None \<Rightarrow> None
                    | Some futures \<Rightarrow>
                        (case await_all raises sched futures of
                           None \<Rightarrow> None
                         | Some trace \<Rightarrow> Some (Inr (), trace)))
              else Some (sequential raises [start..<end] []))"

section \<open>The thread pools\<close>

subsection \<open>ThreadPool of diskann\_parallel.h\<close>

text \<open>
  A worker thread is at the top of its loop (about to take the lock and wait on the
  condition variable), is running a task outside the lock, or has returned from its
  loop. The pool is its workers, the queue and the stop flag; \<open>completed\<close> records the
  tasks that have run to their end, in the order in which they ended. Tasks are values of
  any type; a task that is started ends.
\<close>

datatype 'a worker = Idle | Busy 'a | Exited

record 'a thread_pool =
  workers :: "'a worker list"
  tasks :: "'a list"
  stop :: bool
  completed :: "'a list"

text \<open>
  The constructor: \<^verbatim>\<open>num_threads == 0\<close> means the hardware concurrency, and 1 when
  that is reported as 0.
\<close>

definition ThreadPool :: "nat \<Rightarrow> nat \<Rightarrow> 'a thread_pool" where
  "ThreadPool num_threads0 hardware_concurrency =
     (let num_threads =
            (if num_threads0 = 0
             then (if hardware_concurrency = 0 then 1 else hardware_concurrency)
             else num_threads0)
      in \<lparr>workers = replicate num_threads Idle, tasks = [], stop = False, completed = []\<rparr>)"

text \<open>
  One pass of worker \<open>w\<close> through the critical section of its loop.
  \<^verbatim>\<open>condition.wait(lock, [this]{ return stop || !tasks.empty(); })\<close> lets the worker
  through only when the predicate holds (otherwise it stays blocked: \<open>None\<close>); then
  \<^verbatim>\<open>if (stop && tasks.empty()) return;\<close> and otherwise the front of the queue is popped
  and run.
\<close>

definition worker_wake :: "nat \<Rightarrow> 'a thread_pool \<Rightarrow> 'a thread_pool option" where
  "worker_wake w p =
     (if w < length (workers p) \<and> workers p ! w = Idle \<and> (stop p \<or> tasks p \<noteq> [])
      then (if stop p \<and> tasks p = []
            then Some (p\<lparr>workers := (workers p)[w := Exited]\<rparr>)
            else Some (p\<lparr>workers := (workers p)[w := Busy (hd (tasks p))],
                        tasks := tl (tasks p)\<rparr>))
      else None)"

text \<open>\<^verbatim>\<open>task()\<close> returns and the worker is back at the top of its loop.\<close>

definition worker_return :: "nat \<Rightarrow> 'a thread_pool \<Rightarrow> 'a thread_pool option" where
  "worker_return w p =
     (if w < length (workers p)
      then (case workers p ! w of
              Busy task \<Rightarrow>
                Some (p\<lparr>workers := (workers p)[w := Idle], completed := completed p @ [task]\<rparr>)
            | Idle \<Rightarrow> None
            | Exited \<Rightarrow> None)
      else None)"

text \<open>
  \<^verbatim>\<open>enqueue\<close> takes the lock and appends the task; it does not look at the stop flag.
\<close>

definition enqueue :: "'a \<Rightarrow> 'a thread_pool \<Rightarrow> 'a thread_pool" where
  "enqueue task p = p\<lparr>tasks := tasks p @ [task]\<rparr>"

text \<open>
  The destructor sets the stop flag under the lock and wakes all workers; its
  \<^verbatim>\<open>join()\<close> loop gets through once every worker has returned.
\<close>

definition signal_stop :: "'a thread_pool \<Rightarrow> 'a thread_pool" where
  "signal_stop p = p\<lparr>stop := True\<rparr>"

definition joined :: "'a thread_pool \<Rightarrow> bool" where
  "joined p = (filter (\<lambda>w. w \<noteq> Exited) (workers p) = [])"

text \<open>
  The pool as a transition system: the atomic actions of the workers, of the threads
  that submit tasks, and of the destructor, in any interleaving.
\<close>

datatype 'a event = Wake nat | Return nat | Enqueue 'a | Stop

fun pool_step :: "'a event \<Rightarrow> 'a thread_pool \<Rightarrow> 'a thread_pool option" where
  "pool_step (Wake w) p = worker_wake w p"
| "pool_step (Return w) p = worker_return w p"
| "pool_step (Enqueue task) p = Some (enqueue task p)"
| "pool_step Stop p = Some (signal_stop p)"

fun run_pool :: "'a event list \<Rightarrow> 'a thread_pool \<Rightarrow> 'a thread_pool option" where
  "run_pool [] p = Some p"
| "run_pool (ev # evs) p =
     (case pool_step ev p of None \<Rightarrow> None | Some p' \<Rightarrow> run_pool evs p')"

subsection \<open>ThreadPool::enqueue of parallel\_framework.h\<close>

text \<open>
  \<^verbatim>\<open>if (stop) throw std::runtime_error("enqueue on stopped ThreadPool")\<close>: the
  submission fails with an error and the queue is left as it was.
\<close>

datatype pool_error = PoolClosed

definition fw_enqueue :: "'a \<Rightarrow> 'a thread_pool \<Rightarrow> pool_error + 'a thread_pool" where
  "fw_enqueue task p = (if stop p then Inl PoolClosed else Inr (p\<lparr>tasks := tasks p @ [task]\<rparr>))"

section \<open>Synchronisation primitives of parallel\_framework.h\<close>

subsection \<open>single\_executor\<close>

text \<open>
  \<^verbatim>\<open>single_executor\<close> owns one static \<^verbatim>\<open>std::atomic<bool> executed\<close>.
  \<^verbatim>\<open>compare_exchange_strong(expected, desired)\<close> is one atomic action: it stores
  \<^verbatim>\<open>desired\<close> and answers true when the object holds \<^verbatim>\<open>expected\<close>, and leaves the
  object alone and answers false otherwise. The pair returned is the new value of the
  object and the answer.
\<close>

definition compare_exchange_strong :: "bool \<Rightarrow> bool \<Rightarrow> bool \<Rightarrow> bool \<times> bool" where
  "compare_exchange_strong obj expected desired =
     (if obj = expected then (desired, True) else (obj, False))"

text \<open>
  The state seen by \<^verbatim>\<open>execute\<close> is the flag together with whatever the supplied
  function works on; \<^verbatim>\<open>fn\<close> is a state transformer on the latter.
\<close>

definition execute :: "('s \<Rightarrow> 's) \<Rightarrow> bool \<times> 's \<Rightarrow> bool \<times> 's" where
  "execute fn st =
     (case compare_exchange_strong (fst st) False True of
        (executed, ok) \<Rightarrow> if ok then (executed, fn (snd st)) else (executed, snd st))"

definition reset :: "bool \<times> 's \<Rightarrow> bool \<times> 's" where
  "reset st = (False, snd st)"

text \<open>
  Calls of \<^verbatim>\<open>execute\<close> from any number of threads take effect in the order in which
  their compare-and-swap hits the flag; the list is that order, each caller with the
  function it supplied.
\<close>

fun execute_calls :: "('s \<Rightarrow> 's) list \<Rightarrow> bool \<times> 's \<Rightarrow> bool \<times> 's" where
  "execute_calls [] st = st"
| "execute_calls (fn # fns) st = execute_calls fns (execute fn st)"

subsection \<open>barrier\<close>







subsection \<open>reduction\_variable::local\<close>

text \<open>
  \<^verbatim>\<open>thread_local_values[get_thread_num() % thread_local_values.size()]\<close>: the thread id
  is an \<^verbatim>\<open>int\<close> (32 bits, handed out by an atomic counter that wraps), the size a
  \<^verbatim>\<open>size_t\<close> (64 bits). The usual arithmetic conversions turn the id into a
  \<^verbatim>\<open>size_t\<close> by sign extension before the unsigned remainder is taken. A remainder by
  zero is undefined behaviour: \<open>None\<close>.
\<close>

definition local_index :: "32 word \<Rightarrow> 64 word \<Rightarrow> 64 word option" where
  "local_index thread_id sz = (if sz = 0 then None else Some (scast thread_id mod sz))"

section \<open>Notions used to state the properties\<close>

text \<open>
  A list of intervals that tiles \<open>[a, b)\<close> from left to right, each interval starting
  where the one before it ends.
\<close>

fun chain :: "(int \<times> int) list \<Rightarrow> int \<Rightarrow> int \<Rightarrow> bool" where
  "chain [] a b = (a = b)"
| "chain (p # ps) a b = (fst p = a \<and> fst p \<le> snd p \<and> chain ps (snd p) b)"

text \<open>How many of the partitions \<open>t, t + 1, \<dots>, n - 1\<close> get an extra index.\<close>

definition extra :: "int \<Rightarrow> int \<Rightarrow> int \<Rightarrow> int" where
  "extra t n r = max 0 (min n r - t)"

text \<open>
  Partition \<open>t\<close> of a range of \<open>total_work\<close> indices split among \<open>num_threads\<close>
  threads, in closed form, and the list of all partitions by ascending index.
\<close>

definition partition_of :: "int \<Rightarrow> int \<Rightarrow> int \<Rightarrow> int \<Rightarrow> int \<times> int" where
  "partition_of start num_threads total_work t =
     (let chunk_size = total_work div num_threads;
          remainder = total_work mod num_threads
      in (start + t * chunk_size + min t remainder,
          start + (t + 1) * chunk_size + min (t + 1) remainder))"

definition partitions :: "int \<Rightarrow> int \<Rightarrow> int \<Rightarrow> (int \<times> int) list" where
  "partitions start num_threads total_work =
     map (\<lambda>t. partition_of start num_threads total_work (int t)) [0..<nat num_threads]"

text \<open>
  Chunk \<open>t\<close> of an iterator range split among \<open>num_threads\<close> tasks, in closed form:
  each chunk has \<open>length xs div num_threads\<close> elements, but the last one, which takes
  all that is left; and the list of all chunks by ascending index.
\<close>

definition chunk_of :: "nat \<Rightarrow> 'a list \<Rightarrow> nat \<Rightarrow> 'a list" where
  "chunk_of num_threads xs t =
     (let chunk_size = length xs div num_threads
      in if t = num_threads - 1 then drop (t * chunk_size) xs
         else take chunk_size (drop (t * chunk_size) xs))"

definition iterator_chunks :: "nat \<Rightarrow> 'a list \<Rightarrow> 'a list list" where
  "iterator_chunks num_threads xs = map (chunk_of num_threads xs) [0..<num_threads]"

text \<open>An associative operation with a two-sided neutral element; a commutative one.\<close>

definition monoid_op :: "('a \<Rightarrow> 'a \<Rightarrow> 'a) \<Rightarrow> 'a \<Rightarrow> bool" where
  "monoid_op f z = ((\<forall>a b c. f (f a b) c = f a (f b c)) \<and> (\<forall>a. f z a = a) \<and> (\<forall>a. f a z = a))"

definition commutative_op :: "('a \<Rightarrow> 'a \<Rightarrow> 'a) \<Rightarrow> bool" where
  "commutative_op f = (\<forall>a b. f a b = f b a)"

text \<open>
  For the dynamic scheduler: the indices a task has claimed and not yet visited; the
  indices accounted for in a state (visited, claimed, or still behind the cursor); and a
  quantity that every step of the scheduler decreases when the chunk size is positive.
\<close>

fun pending :: "claimer \<Rightarrow> nat list" where
  "pending (Visit l) = l"
| "pending Claim = []"
| "pending Finished = []"

fun weight :: "claimer \<Rightarrow> nat" where
  "weight Claim = 1"
| "weight (Visit l) = length l + 2"
| "weight Finished = 0"

definition dynamic_total :: "nat \<Rightarrow> dynamic_state \<Rightarrow> nat multiset" where
  "dynamic_total end s =
     mset (visited s) + mset (concat (map pending (claimers s)))
       + mset [min (next_chunk s) end..<end]"

definition dynamic_measure :: "nat \<Rightarrow> dynamic_state \<Rightarrow> nat" where
  "dynamic_measure end s = sum_list (map weight (claimers s)) + 3 * (end - next_chunk s)"

text \<open>A state of the dynamic scheduler with chunk size zero: nothing moves.\<close>

definition stuck :: "nat \<Rightarrow> nat \<Rightarrow> dynamic_state \<Rightarrow> bool" where
  "stuck start num_threads s =
     (next_chunk s = start \<and> visited s = [] \<and> length (claimers s) = num_threads
      \<and> filter (\<lambda>c. c \<noteq> Claim \<and> c \<noteq> Visit []) (claimers s) = [])"

text \<open>The tasks of the dynamic scheduler that have not left their loop.\<close>

fun unfinished :: "claimer \<Rightarrow> nat" where
  "unfinished Finished = 0"
| "unfinished Claim = 1"
| "unfinished (Visit l) = 1"

text \<open>
  For the pool: the tasks the workers are running; what is a step of a worker; and a
  quantity that every step of a worker decreases by one.
\<close>

fun running :: "'a worker \<Rightarrow> 'a list" where
  "running (Busy task) = [task]"
| "running Idle = []"
| "running Exited = []"

definition busy :: "'a thread_pool \<Rightarrow> 'a list" where
  "busy p = concat (map running (workers p))"

fun worker_event :: "'a event \<Rightarrow> bool" where
  "worker_event (Wake w) = True"
| "worker_event (Return w) = True"
| "worker_event (Enqueue task) = False"
| "worker_event Stop = False"

fun effort :: "'a worker \<Rightarrow> nat" where
  "effort Idle = 1"
| "effort (Busy task) = 2"
| "effort Exited = 0"

definition pool_measure :: "'a thread_pool \<Rightarrow> nat" where
  "pool_measure p = sum_list (map effort (workers p)) + 2 * length (tasks p)"

text \<open>The tasks submitted by a sequence of events, in order.\<close>

fun submitted :: "'a event list \<Rightarrow> 'a list" where
  "submitted [] = []"
| "submitted (Enqueue task # evs) = task # submitted evs"
| "submitted (Wake w # evs) = submitted evs"
| "submitted (Return w # evs) = submitted evs"
| "submitted (Stop # evs) = submitted evs"

subsection \<open>Rounds of a barrier\<close>


section \<open>Auxiliary facts\<close>

subsection \<open>Reductions\<close>

lemma for_loop_acc:
  assumes assoc: "\<And>a b c. f (f a b) c = f a (f b c)"
    and idl: "\<And>a. f z a = a" and idr: "\<And>a. f a z = a"
  shows "for_loop i e (\<lambda>i r. f r (g i)) s = f s (for_loop i e (\<lambda>i r. f r (g i)) z)"
proof (induction "nat (e - i)" arbitrary: i s)
  case 0
  then have "\<not> i < e" by simp
  then show ?case by (simp add: for_loop.simps [of i e] idr)
next
  case (Suc n)
  then have lt: "i < e" and n: "n = nat (e - (i + 1))" by simp_all
  have "for_loop i e (\<lambda>i r. f r (g i)) s = for_loop (i + 1) e (\<lambda>i r. f r (g i)) (f s (g i))"
    using lt by (simp add: for_loop.simps [of i e])
  also have "\<dots> = f (f s (g i)) (for_loop (i + 1) e (\<lambda>i r. f r (g i)) z)"
    by (rule Suc.hyps(1) [OF n])
  also have "\<dots> = f s (f (f z (g i)) (for_loop (i + 1) e (\<lambda>i r. f r (g i)) z))"
    by (simp add: assoc idl)
  also have "\<dots> = f s (for_loop (i + 1) e (\<lambda>i r. f r (g i)) (f z (g i)))"
    using Suc.hyps(1) [OF n, of "f z (g i)"] by simp
  also have "\<dots> = f s (for_loop i e (\<lambda>i r. f r (g i)) z)"
    using lt by (simp add: for_loop.simps [of i e])
  finally show ?case .
qed

lemma for_loop_split:
  "i \<le> m \<Longrightarrow> m \<le> e \<Longrightarrow> for_loop i e body s = for_loop m e body (for_loop i m body s)"
proof (induction "nat (m - i)" arbitrary: i s)
  case 0
  then have "i = m" by simp
  then show ?case by (simp add: for_loop.simps [of m m])
next
  case (Suc n)
  then have lt: "i < m" and n: "n = nat (m - (i + 1))" by simp_all
  have "for_loop i e body s = for_loop (i + 1) e body (body i s)"
    using lt Suc.prems by (simp add: for_loop.simps [of i e])
  also have "\<dots> = for_loop m e body (for_loop (i + 1) m body (body i s))"
    using Suc.hyps(1) [OF n] lt Suc.prems by simp
  also have "for_loop (i + 1) m body (body i s) = for_loop i m body s"
    using lt by (simp add: for_loop.simps [of i m])
  finally show ?case .
qed

lemma for_loop_empty: "e \<le> i \<Longrightarrow> for_loop i e body s = s"
  by (simp add: for_loop.simps [of i e])

lemma chain_le: "chain ps a b \<Longrightarrow> a \<le> b"
proof (induction ps arbitrary: a)
  case Nil
  then show ?case by simp
next
  case (Cons p ps)
  then have "a \<le> snd p" and "chain ps (snd p) b" by simp_all
  with Cons.IH [of "snd p"] show ?case by simp
qed

lemma foldl_chain:
  assumes assoc: "\<And>a b c. f (f a b) c = f a (f b c)"
    and idl: "\<And>a. f z a = a" and idr: "\<And>a. f a z = a"
  shows "chain ps a b \<Longrightarrow>
    foldl f s (map (local_fold f g z) ps) = for_loop a b (\<lambda>i r. f r (g i)) s"
proof (induction ps arbitrary: a s)
  case Nil
  then show ?case by (simp add: for_loop_empty)
next
  case (Cons p ps)
  then have p: "fst p = a" "a \<le> snd p" and rest: "chain ps (snd p) b" by simp_all
  have le: "snd p \<le> b" using rest by (rule chain_le)
  have "foldl f s (map (local_fold f g z) (p # ps))
      = foldl f (f s (for_loop a (snd p) (\<lambda>i r. f r (g i)) z)) (map (local_fold f g z) ps)"
    using p by (simp add: local_fold_def)
  also have "\<dots> = foldl f (for_loop a (snd p) (\<lambda>i r. f r (g i)) s) (map (local_fold f g z) ps)"
    using for_loop_acc [of f z a "snd p" g s, OF assoc idl idr] by simp
  also have "\<dots> = for_loop (snd p) b (\<lambda>i r. f r (g i)) (for_loop a (snd p) (\<lambda>i r. f r (g i)) s)"
    by (rule Cons.IH [OF rest])
  also have "\<dots> = for_loop a b (\<lambda>i r. f r (g i)) s"
    by (rule for_loop_split [OF p(2) le, symmetric])
  finally show ?case .
qed

lemma spawn_partitions_chain:
  "0 \<le> c \<Longrightarrow> t \<le> n \<Longrightarrow>
   chain (spawn_partitions t n c r cur) cur (cur + (n - t) * c + extra t n r)"
proof (induction t n c r cur rule: spawn_partitions.induct)
  case (1 t n c r cur)
  show ?case
  proof (cases "t < n")
    case False
    then have "t = n" using "1.prems" by simp
    then show ?thesis by (simp add: spawn_partitions.simps [of n n] extra_def)
  next
    case True
    define ce where "ce = cur + c + (if t < r then 1 else 0)"
    have ih: "chain (spawn_partitions (t + 1) n c r ce) ce (ce + (n - (t + 1)) * c + extra (t + 1) n r)"
      using "1.IH" [OF True ce_def] "1.prems" True by simp
    have e: "ce + (n - (t + 1)) * c + extra (t + 1) n r = cur + (n - t) * c + extra t n r"
      using True by (simp add: ce_def extra_def algebra_simps)
    have "cur \<le> ce" using "1.prems" by (simp add: ce_def)
    then show ?thesis
      using ih True unfolding e by (simp add: spawn_partitions.simps [of t n] Let_def ce_def)
  qed
qed

lemma spawn_partitions_length:
  "length (spawn_partitions t n c r cur) = nat (n - t)"
proof (induction t n c r cur rule: spawn_partitions.induct)
  case (1 t n c r cur)
  show ?case
  proof (cases "t < n")
    case False
    then show ?thesis by (simp add: spawn_partitions.simps [of t n])
  next
    case True
    then show ?thesis
      using "1.IH" [OF True refl] by (simp add: spawn_partitions.simps [of t n] Let_def Suc_nat_eq_nat_zadd1 nat_diff_distrib)
  qed
qed

lemma static_partitions_chain:
  assumes "0 < n" "start < e"
  shows "chain (spawn_partitions 0 n ((e - start) div n) ((e - start) mod n) start) start e"
proof -
  have c: "0 \<le> (e - start) div n" using assms by (simp add: pos_imp_zdiv_nonneg_iff)
  have r: "0 \<le> (e - start) mod n" "(e - start) mod n < n" using assms by simp_all
  have x: "extra 0 n ((e - start) mod n) = (e - start) mod n"
    using r by (simp add: extra_def)
  have "start + (n - 0) * ((e - start) div n) + extra 0 n ((e - start) mod n) = e"
    unfolding x by (simp add: algebra_simps)
  then show ?thesis
    using spawn_partitions_chain [OF c, of 0 n "(e - start) mod n" start] assms by simp
qed

lemma parallel_reduce_monoid:
  assumes assoc: "\<And>a b c. f (f a b) c = f a (f b c)"
    and idl: "\<And>a. f z a = a" and idr: "\<And>a. f a z = a"
    and fits: "is_int (e - start)"
  shows "parallel_reduce hw start e z f g nt = Some (for_loop start e (\<lambda>i r. f r (g i)) z)"
proof (cases "e - start \<le> 0")
  case True
  then show ?thesis using fits by (simp add: parallel_reduce_def for_loop.simps [of start e])
next
  case False
  define n where "n = (if nt \<le> 0 then get_num_threads hw else nt)"
  have n: "0 < n" by (simp add: n_def get_num_threads_def)
  have se: "start < e" using False by simp
  show ?thesis
  proof (cases "e - start < n \<or> n = 1")
    case True
    then show ?thesis
      using False fits by (simp add: parallel_reduce_def n_def [symmetric] local_fold_def Let_def)
  next
    case par: False
    have "parallel_reduce hw start e z f g nt =
        Some (foldl f z (map (local_fold f g z)
          (spawn_partitions 0 n ((e - start) div n) ((e - start) mod n) start)))"
      using False par fits by (simp add: parallel_reduce_def n_def [symmetric] Let_def)
    also have "foldl f z (map (local_fold f g z)
          (spawn_partitions 0 n ((e - start) div n) ((e - start) mod n) start))
        = for_loop start e (\<lambda>i r. f r (g i)) z"
      by (rule foldl_chain [OF assoc idl idr static_partitions_chain [OF n se]])
    finally show ?thesis .
  qed
qed

lemma for_loop_sum2:
  "i \<le> e \<Longrightarrow> 2 * for_loop i e (\<lambda>i r. r + i) s = 2 * s + e * (e - 1) - i * (i - 1)"
proof (induction "nat (e - i)" arbitrary: i s)
  case 0
  then have "i = e" by simp
  then show ?case by (simp add: for_loop.simps [of e e])
next
  case (Suc n)
  then have lt: "i < e" and n: "n = nat (e - (i + 1))" by simp_all
  have "2 * for_loop (i + 1) e (\<lambda>i r. r + i) (s + i) = 2 * (s + i) + e * (e - 1) - (i + 1) * (i + 1 - 1)"
    using Suc.hyps(1) [OF n] lt by simp
  then show ?case
    using lt by (simp add: for_loop.simps [of i e] algebra_simps)
qed

lemma for_loop_sum:
  "0 \<le> N \<Longrightarrow> for_loop 0 N (\<lambda>i r. r + i) 0 = N * (N - 1) div 2"
  using for_loop_sum2 [of 0 N 0] by simp


lemma foldl_pull:
  assumes assoc: "\<And>a b c. f (f a b) c = f a (f b c)"
    and comm: "\<And>a b. f a b = f b a"
  shows "foldl f (f b d) xs = f (foldl f b xs) d"
proof (induction xs arbitrary: b)
  case Nil
  show ?case by simp
next
  case (Cons x xs)
  have "f (f b d) x = f (f b x) d"
    by (metis assoc comm)
  then show ?case
    using Cons.IH [of "f b x"] by simp
qed

lemma foldl_update:
  assumes assoc: "\<And>a b c. f (f a b) c = f a (f b c)"
    and comm: "\<And>a b. f a b = f b a"
  shows "k < length xs \<Longrightarrow> foldl f a (xs[k := f (xs ! k) d]) = f (foldl f a xs) d"
proof (induction xs arbitrary: k a)
  case Nil
  then show ?case by simp
next
  case (Cons x xs)
  show ?case
  proof (cases k)
    case 0
    have "f a (f x d) = f (f a x) d"
      by (simp add: assoc)
    then show ?thesis
      using 0 foldl_pull [of f "f a x" d xs, OF assoc comm] by simp
  next
    case (Suc j)
    then show ?thesis
      using Cons.IH [of j "f a x"] Cons.prems by simp
  qed
qed

lemma fw_accumulate_eq:
  assumes assoc: "\<And>a b c. f (f a b) c = f a (f b c)"
    and idl: "\<And>a. f z a = a" and idr: "\<And>a. f a z = a"
  shows "fw_accumulate f g n slots run =
     slots[nat (int (fst run) mod n) :=
        f (slots ! nat (int (fst run) mod n)) (local_fold f g z (snd run))]"
proof -
  have "for_loop (fst (snd run)) (snd (snd run)) (\<lambda>i r. f r (g i)) (slots ! nat (int (fst run) mod n))
      = f (slots ! nat (int (fst run) mod n))
          (for_loop (fst (snd run)) (snd (snd run)) (\<lambda>i r. f r (g i)) z)"
    by (rule for_loop_acc [OF assoc idl idr])
  then show ?thesis
    by (simp only: fw_accumulate_def Let_def local_fold_def)
qed

lemma fw_accumulate_length:
  "length (fw_accumulate f g n slots run) = length slots"
  by (simp add: fw_accumulate_def Let_def)

lemma fw_runs:
  assumes assoc: "\<And>a b c. f (f a b) c = f a (f b c)"
    and comm: "\<And>a b. f a b = f b a"
    and idl: "\<And>a. f z a = a" and idr: "\<And>a. f a z = a"
    and n: "0 < n"
  shows "length slots = nat n \<Longrightarrow>
    foldl f z (foldl (fw_accumulate f g n) slots runs) =
    foldl f (foldl f z slots) (map (local_fold f g z) (map snd runs))"
proof (induction runs arbitrary: slots)
  case Nil
  show ?case by simp
next
  case (Cons run runs)
  define k where "k = nat (int (fst run) mod n)"
  have k: "k < length slots"
    using n Cons.prems by (simp add: k_def nat_less_iff)
  have len: "length (fw_accumulate f g n slots run) = nat n"
    using Cons.prems by (simp add: fw_accumulate_length)
  have acc: "fw_accumulate f g n slots run = slots[k := f (slots ! k) (local_fold f g z (snd run))]"
    unfolding k_def by (rule fw_accumulate_eq [OF assoc idl idr])
  have "foldl f z (slots[k := f (slots ! k) (local_fold f g z (snd run))])
      = f (foldl f z slots) (local_fold f g z (snd run))"
    using foldl_update [of f k slots z "local_fold f g z (snd run)", OF assoc comm k] .
  then have "foldl f z (fw_accumulate f g n slots run) = f (foldl f z slots) (local_fold f g z (snd run))"
    by (simp only: acc)
  then show ?case
    using Cons.IH [OF len] by simp
qed

lemma foldl_replicate_id:
  assumes idl: "\<And>a. f z a = a"
  shows "foldl f z (replicate m z) = z"
  by (induction m) (simp_all add: idl)

lemma fw_execute_runs:
  assumes "0 < n" "start < e" and fits: "is_int (e - start)" "is_int (n * 2)"
  shows "\<exists>runs. fw_execute global caller_tid worker_tid start e n = Some runs
      \<and> chain (map snd runs) start e
      \<and> (distinct (map (\<lambda>t. int (worker_tid t) mod n) [0..<nat n])
           \<longrightarrow> distinct (map (\<lambda>run. int (fst run) mod n) runs))"
proof (cases "e - start < n * 2 \<or> n = 1")
  case True
  then have "fw_execute global caller_tid worker_tid start e n = Some [(caller_tid, start, e)]"
    using assms by (simp add: fw_execute_def Let_def)
  then show ?thesis
    using assms by simp
next
  case False
  define parts where "parts = spawn_partitions 0 n ((e - start) div n) ((e - start) mod n) start"
  define runs where "runs = map (\<lambda>t. (worker_tid t, parts ! t)) [0..<length parts]"
  have ex: "fw_execute global caller_tid worker_tid start e n = Some runs"
    using False assms by (simp add: fw_execute_def Let_def runs_def parts_def)
  have len: "length parts = nat n"
    by (simp add: parts_def spawn_partitions_length)
  have "map snd runs = map (\<lambda>t. parts ! t) [0..<length parts]"
    by (simp add: runs_def comp_def)
  then have snd: "map snd runs = parts"
    by (simp add: map_nth)
  have ch: "chain (map snd runs) start e"
    unfolding snd parts_def by (rule static_partitions_chain [OF assms(1,2)])
  have "map (\<lambda>run. int (fst run) mod n) runs = map (\<lambda>t. int (worker_tid t) mod n) [0..<nat n]"
    by (simp add: runs_def comp_def len)
  then show ?thesis
    using ex ch by simp
qed

lemma fw_parallel_reduce_comm_monoid:
  assumes assoc: "\<And>a b c. f (f a b) c = f a (f b c)"
    and comm: "\<And>a b. f a b = f b a"
    and idl: "\<And>a. f z a = a" and idr: "\<And>a. f a z = a"
    and n: "0 < global \<or> 0 < nt"
    and slots: "distinct (map (\<lambda>t. int (worker_tid t) mod (if nt \<le> 0 then int global else nt))
                  [0..<nat (if nt \<le> 0 then int global else nt)])"
    and fits: "is_int (e - start)" "is_int ((if nt \<le> 0 then int global else nt) * 2)"
  shows "fw_parallel_reduce global caller_tid worker_tid start e z g f nt
           = Some (for_loop start e (\<lambda>i r. f r (g i)) z)"
proof (cases "e - start \<le> 0")
  case True
  then show ?thesis
    using fits(1) by (simp add: fw_parallel_reduce_def for_loop_empty)
next
  case False
  define m where "m = (if nt \<le> 0 then int global else nt)"
  have m: "0 < m" using n by (auto simp: m_def)
  have se: "start < e" using False by simp
  obtain runs where runs: "fw_execute global caller_tid worker_tid start e m = Some runs"
      "chain (map snd runs) start e" "distinct (map (\<lambda>run. int (fst run) mod m) runs)"
    using fw_execute_runs [OF m se fits(1), of global caller_tid worker_tid] slots fits(2)
    unfolding m_def [symmetric] by blast
  have "foldl f z (foldl (fw_accumulate f g m) (replicate (nat m) z) runs)
      = foldl f (foldl f z (replicate (nat m) z)) (map (local_fold f g z) (map snd runs))"
    by (rule fw_runs [OF assoc comm idl idr m]) simp
  also have "\<dots> = foldl f z (map (local_fold f g z) (map snd runs))"
    by (simp add: foldl_replicate_id [of f z, OF idl])
  also have "\<dots> = for_loop start e (\<lambda>i r. f r (g i)) z"
    by (rule foldl_chain [OF assoc idl idr runs(2)])
  finally show ?thesis
    using False runs(1,3) fits(1) by (simp add: fw_parallel_reduce_def m_def [symmetric] Let_def)
qed

lemma foldl_acc:
  assumes assoc: "\<And>a b c. f (f a b) c = f a (f b c)"
    and idl: "\<And>a. f z a = a" and idr: "\<And>a. f a z = a"
  shows "foldl f s xs = f s (foldl f z xs)"
proof (induction xs arbitrary: s rule: rev_induct)
  case Nil
  show ?case by (simp add: idr)
next
  case (snoc x xs)
  show ?case
    using snoc [of s] by (simp add: assoc)
qed

lemma foldl_concat_monoid:
  assumes assoc: "\<And>a b c. f (f a b) c = f a (f b c)"
    and idl: "\<And>a. f z a = a" and idr: "\<And>a. f a z = a"
  shows "foldl f s (map (foldl f z) xss) = foldl f s (concat xss)"
proof (induction xss arbitrary: s)
  case Nil
  show ?case by simp
next
  case (Cons xs xss)
  have "f s (foldl f z xs) = foldl f s xs"
    by (rule foldl_acc [of f z s xs, OF assoc idl idr, symmetric])
  then show ?case
    using Cons.IH [of "foldl f s xs"] by simp
qed

lemma reduce_chunks_done: "\<not> t < n \<Longrightarrow> reduce_chunks t n c xs = []"
  by (simp add: reduce_chunks.simps [of t n])

lemma concat_reduce_chunks:
  "t < n \<Longrightarrow> concat (reduce_chunks t n c xs) = xs"
proof (induction t n c xs rule: reduce_chunks.induct)
  case (1 t n c xs)
  have step: "reduce_chunks t n c xs =
      (if t = n - 1 then xs else take c xs)
        # reduce_chunks (t + 1) n c (if t = n - 1 then [] else drop c xs)"
    using "1.prems" by (subst reduce_chunks.simps) (simp add: Let_def)
  show ?case
  proof (cases "t = n - 1")
    case True
    have "\<not> t + 1 < n" using True by simp
    then have d: "reduce_chunks (t + 1) n c [] = []"
      by (rule reduce_chunks_done)
    have "reduce_chunks t n c xs = xs # reduce_chunks (t + 1) n c []"
      by (simp only: step if_P [OF True])
    then have "reduce_chunks t n c xs = [xs]"
      by (simp only: d)
    then show ?thesis
      by simp
  next
    case False
    then have lt: "t + 1 < n" using "1.prems" by simp
    have ih: "concat (reduce_chunks (t + 1) n c (drop c xs)) = drop c xs"
      using "1.IH" [OF "1.prems" refl _ lt] False by simp
    have "reduce_chunks t n c xs = take c xs # reduce_chunks (t + 1) n c (drop c xs)"
      by (simp only: step if_not_P [OF False])
    then show ?thesis
      using ih by simp
  qed
qed

lemma parallel_reduce_iter_monoid:
  assumes assoc: "\<And>a b c. f (f a b) c = f a (f b c)"
    and idl: "\<And>a. f z a = a" and idr: "\<And>a. f a z = a"
  shows "parallel_reduce_iter n xs z f = foldl f z xs"
proof (cases "length xs > 1000 \<and> n > 1")
  case True
  then have "0 < n" by simp
  then have "concat (reduce_chunks 0 n (length xs div n) xs) = xs"
    by (rule concat_reduce_chunks)
  then show ?thesis
    using True foldl_concat_monoid [of f z z "reduce_chunks 0 n (length xs div n) xs", OF assoc idl idr]
    by (simp add: parallel_reduce_iter_def Let_def)
next
  case False
  then show ?thesis
    by (auto simp: parallel_reduce_iter_def Let_def)
qed

lemma spawn_partitions_closed:
  "0 \<le> t \<Longrightarrow> 0 \<le> r \<Longrightarrow>
   spawn_partitions t n c r (start + t * c + min t r) =
   map (\<lambda>k. (start + int k * c + min (int k) r, start + (int k + 1) * c + min (int k + 1) r))
     [nat t..<nat n]"
proof (induction "nat (n - t)" arbitrary: t)
  case 0
  then have "\<not> t < n" by simp
  then show ?case by (simp add: spawn_partitions.simps [of t n])
next
  case (Suc j)
  then have lt: "t < n" and j: "j = nat (n - (t + 1))" by simp_all
  have up: "[nat t..<nat n] = nat t # [nat (t + 1)..<nat n]"
    using lt Suc.prems by (simp add: upt_conv_Cons nat_add_distrib)
  have cur: "start + t * c + min t r + c + (if t < r then 1 else 0) = start + (t + 1) * c + min (t + 1) r"
    by (simp add: algebra_simps min_def)
  have "spawn_partitions (t + 1) n c r (start + (t + 1) * c + min (t + 1) r) =
      map (\<lambda>k. (start + int k * c + min (int k) r, start + (int k + 1) * c + min (int k + 1) r))
        [nat (t + 1)..<nat n]"
    using Suc.hyps(1) [OF j] Suc.prems by simp
  then show ?case
    using lt Suc.prems unfolding up
    by (simp add: spawn_partitions.simps [of t n] Let_def cur)
qed


lemma parallel_reduce_in_order:
  assumes "\<not> e - start \<le> 0"
    and "n = (if nt \<le> 0 then get_num_threads hw else nt)"
    and "\<not> (e - start < n \<or> n = 1)"
    and "is_int (e - start)"
  shows "parallel_reduce hw start e z f g nt =
     Some (foldl f z (map (local_fold f g z) (partitions start n (e - start))))"
proof -
  have n: "0 < n" using assms(2) by (simp add: get_num_threads_def)
  have r: "0 \<le> (e - start) mod n" using n by simp
  have "spawn_partitions 0 n ((e - start) div n) ((e - start) mod n) start
      = map (\<lambda>t. partition_of start n (e - start) (int t)) [0..<nat n]"
    using spawn_partitions_closed [of 0 "(e - start) mod n" n "(e - start) div n" start] r
    by (simp add: partition_of_def Let_def)
  then show ?thesis
    using assms by (simp add: parallel_reduce_def Let_def partitions_def)
qed

subsection \<open>Sums in machine integers\<close>

lemma for_loop_word_sum:
  "for_loop i e (\<lambda>i r. r + word_of_int i) (word_of_int s :: 'a::len word)
     = word_of_int (for_loop i e (\<lambda>i r. r + i) s)"
proof (induction "nat (e - i)" arbitrary: i s)
  case 0
  then have "e \<le> i" by simp
  then show ?case by (simp add: for_loop_empty)
next
  case (Suc n)
  then have lt: "i < e" and n: "n = nat (e - (i + 1))" by simp_all
  have "for_loop (i + 1) e (\<lambda>i r. r + word_of_int i) (word_of_int (s + i) :: 'a word)
      = word_of_int (for_loop (i + 1) e (\<lambda>i r. r + i) (s + i))"
    by (rule Suc.hyps(1) [OF n])
  then show ?case
    using lt by (simp add: for_loop.simps [of i e])
qed

lemma word_triangular_sum:
  assumes "0 \<le> N"
  shows "for_loop 0 N (\<lambda>i r. r + word_of_int i) (0 :: 'a::len word) = word_of_int (N * (N - 1) div 2)"
proof -
  have "for_loop 0 N (\<lambda>i r. r + word_of_int i) (word_of_int 0 :: 'a word)
      = word_of_int (for_loop 0 N (\<lambda>i r. r + i) 0)"
    by (rule for_loop_word_sum)
  then show ?thesis
    by (simp add: for_loop_sum [OF assms])
qed

lemma parallel_reduce_word_sum:
  assumes "0 \<le> N" and "is_int N"
  shows "parallel_reduce hw 0 N (0 :: 'a::len word) (+) word_of_int nt
     = Some (word_of_int (N * (N - 1) div 2))"
proof -
  have "parallel_reduce hw 0 N (0 :: 'a word) (+) word_of_int nt
      = Some (for_loop 0 N (\<lambda>i r. r + word_of_int i) 0)"
    using assms(2) by (intro parallel_reduce_monoid) (simp_all add: add.assoc)
  then show ?thesis
    by (simp only: word_triangular_sum [OF assms(1)])
qed

lemma fw_parallel_reduce_word_sum:
  assumes "0 \<le> N" and "0 < resolve_threads global nt"
    and "distinct (map (\<lambda>t. int (worker_tid t) mod resolve_threads global nt)
               [0..<nat (resolve_threads global nt)])"
    and "is_int N" and "is_int (resolve_threads global nt * 2)"
  shows "fw_parallel_reduce global caller_tid worker_tid 0 N (0 :: 'a::len word) word_of_int (+) nt
     = Some (word_of_int (N * (N - 1) div 2))"
proof -
  have pos: "0 < global \<or> 0 < nt"
    using assms(2) by (auto simp: resolve_threads_def split: if_splits)
  have d: "distinct (map (\<lambda>t. int (worker_tid t) mod (if nt \<le> 0 then int global else nt))
                [0..<nat (if nt \<le> 0 then int global else nt)])"
    using assms(3) by (simp add: resolve_threads_def)
  have f: "is_int (N - 0)" "is_int ((if nt \<le> 0 then int global else nt) * 2)"
    using assms(4,5) by (simp_all add: resolve_threads_def)
  have "fw_parallel_reduce global caller_tid worker_tid 0 N (0 :: 'a word) word_of_int (+) nt
      = Some (for_loop 0 N (\<lambda>i r. r + word_of_int i) 0)"
    by (rule fw_parallel_reduce_comm_monoid [OF _ _ _ _ pos d f]) (simp_all add: add.assoc add.commute)
  then show ?thesis
    by (simp only: word_triangular_sum [OF assms(1)])
qed

subsection \<open>The chunks of the iterator reduction\<close>

lemma reduce_chunks_closed:
  "reduce_chunks t n c (drop (t * c) xs) =
     map (\<lambda>k. if k = n - 1 then drop (k * c) xs else take c (drop (k * c) xs)) [t..<n]"
proof (induction "n - t" arbitrary: t)
  case 0
  then have "\<not> t < n" by simp
  then show ?case by (simp add: reduce_chunks_done)
next
  case (Suc j)
  then have lt: "t < n" and j: "j = n - (t + 1)" by simp_all
  define rest where "rest = map (\<lambda>k. if k = n - 1 then drop (k * c) xs else take c (drop (k * c) xs))
      [t + 1..<n]"
  have up: "[t..<n] = t # [t + 1..<n]"
    using lt by (simp add: upt_conv_Cons)
  have step: "reduce_chunks t n c (drop (t * c) xs) =
      (if t = n - 1 then drop (t * c) xs else take c (drop (t * c) xs))
        # reduce_chunks (t + 1) n c (if t = n - 1 then [] else drop c (drop (t * c) xs))"
    using lt by (subst reduce_chunks.simps) (simp add: Let_def)
  have tail: "reduce_chunks (t + 1) n c (if t = n - 1 then [] else drop c (drop (t * c) xs)) = rest"
  proof (cases "t = n - 1")
    case True
    then have "\<not> t + 1 < n" by simp
    then have "reduce_chunks (t + 1) n c [] = []"
      by (rule reduce_chunks_done)
    moreover have "rest = []"
      using True lt by (simp add: rest_def)
    ultimately show ?thesis
      using True by simp
  next
    case False
    have "drop c (drop (t * c) xs) = drop ((t + 1) * c) xs"
      by (simp add: add.commute)
    then show ?thesis
      using False Suc.hyps(1) [OF j] by (simp add: rest_def)
  qed
  show ?case
    unfolding up by (simp only: step tail list.map rest_def [symmetric])
qed

lemma reduce_chunks_iterator_chunks:
  "reduce_chunks 0 n (length xs div n) xs = iterator_chunks n xs"
  using reduce_chunks_closed [of 0 n "length xs div n" xs]
  by (simp add: iterator_chunks_def chunk_of_def Let_def)

lemma concat_iterator_chunks:
  "0 < n \<Longrightarrow> concat (iterator_chunks n xs) = xs"
  using concat_reduce_chunks [of 0 n "length xs div n" xs]
  by (simp only: reduce_chunks_iterator_chunks)

lemma parallel_reduce_iter_in_order:
  assumes "1000 < length xs" and "1 < n"
  shows "parallel_reduce_iter n xs z h = foldl h z (map (foldl h z) (iterator_chunks n xs))"
  using assms by (simp add: parallel_reduce_iter_def Let_def reduce_chunks_iterator_chunks)

lemma partitions_chain:
  assumes "0 < n" and "start < e"
  shows "chain (partitions start n (e - start)) start e"
proof -
  have r: "0 \<le> (e - start) mod n" using assms(1) by simp
  have "spawn_partitions 0 n ((e - start) div n) ((e - start) mod n) start
      = map (\<lambda>t. partition_of start n (e - start) (int t)) [0..<nat n]"
    using spawn_partitions_closed [of 0 "(e - start) mod n" n "(e - start) div n" start] r
    by (simp add: partition_of_def Let_def)
  then have "partitions start n (e - start)
      = spawn_partitions 0 n ((e - start) div n) ((e - start) mod n) start"
    by (simp add: partitions_def)
  then show ?thesis
    using static_partitions_chain [OF assms] by simp
qed

subsection \<open>Tasks with a fixed chunk\<close>

lemma concat_update_mset:
  "t < length xs \<Longrightarrow>
   mset (concat (xs[t := y])) + mset (xs ! t) = mset (concat xs) + mset y"
proof (induction xs arbitrary: t)
  case Nil
  then show ?case by simp
next
  case (Cons x xs)
  show ?case
  proof (cases t)
    case 0
    then show ?thesis by simp
  next
    case (Suc j)
    then have "j < length xs" using Cons.prems by simp
    from Cons.IH [OF this] show ?thesis
      using Suc by (simp add: ac_simps)
  qed
qed

lemma concat_update_length:
  "t < length xs \<Longrightarrow>
   length (concat (xs[t := y])) + length (xs ! t) = length (concat xs) + length y"
proof -
  assume "t < length xs"
  then have "size (mset (concat (xs[t := y])) + mset (xs ! t)) = size (mset (concat xs) + mset y)"
    by (simp only: concat_update_mset)
  then show ?thesis by simp
qed

lemma task_step_cases:
  assumes "task_step raises t (ts, trace) = Some s'"
  obtains i rest where "t < length ts" "ts ! t = i # rest"
    "s' = (ts[t := (if raises i then [] else rest)], trace @ [i])"
  using assms by (auto split: if_splits list.splits)

lemma task_step_conserve:
  assumes "task_step raises t s = Some s'" and "\<And>i. \<not> raises i"
  shows "mset (snd s') + mset (concat (fst s')) = mset (snd s) + mset (concat (fst s))"
proof -
  obtain ts trace where s: "s = (ts, trace)" by (cases s)
  from assms(1) [unfolded s] obtain i rest where
    t: "t < length ts" "ts ! t = i # rest"
    and s': "s' = (ts[t := (if raises i then [] else rest)], trace @ [i])"
    by (rule task_step_cases)
  have "mset (concat (ts[t := rest])) + mset (i # rest) = mset (concat ts) + mset rest"
    using concat_update_mset [OF t(1), of rest] t(2) by simp
  then have "mset (concat (ts[t := rest])) + {#i#} = mset (concat ts)"
    by simp
  then show ?thesis
    using assms(2) by (simp add: s s')
qed

lemma run_tasks_conserve:
  assumes "\<And>i. \<not> raises i"
  shows "run_tasks raises sched s = Some s' \<Longrightarrow>
    mset (snd s') + mset (concat (fst s')) = mset (snd s) + mset (concat (fst s))"
proof (induction sched arbitrary: s)
  case Nil
  then show ?case by simp
next
  case (Cons t sched)
  then obtain s1 where s1: "task_step raises t s = Some s1" "run_tasks raises sched s1 = Some s'"
    by (auto split: option.splits)
  from Cons.IH [OF s1(2)] task_step_conserve [OF s1(1) assms] show ?case
    by simp
qed

lemma task_step_shrinks:
  assumes "task_step raises t s = Some s'"
  shows "length (concat (fst s')) < length (concat (fst s))"
proof -
  obtain ts trace where s: "s = (ts, trace)" by (cases s)
  from assms [unfolded s] obtain i rest where
    t: "t < length ts" "ts ! t = i # rest"
    and s': "s' = (ts[t := (if raises i then [] else rest)], trace @ [i])"
    by (rule task_step_cases)
  have "length (concat (ts[t := (if raises i then [] else rest)])) + length (i # rest)
      = length (concat ts) + length (if raises i then [] else rest)"
    using concat_update_length [OF t(1), of "if raises i then [] else rest"] t(2) by simp
  then show ?thesis
    by (simp add: s s' split: if_splits)
qed

lemma run_tasks_bounded:
  "run_tasks raises sched s = Some s' \<Longrightarrow>
   length sched + length (concat (fst s')) \<le> length (concat (fst s))"
proof (induction sched arbitrary: s)
  case Nil
  then show ?case by simp
next
  case (Cons t sched)
  then obtain s1 where s1: "task_step raises t s = Some s1" "run_tasks raises sched s1 = Some s'"
    by (auto split: option.splits)
  from Cons.IH [OF s1(2)] task_step_shrinks [OF s1(1)] show ?case
    by simp
qed

lemma task_step_enabled:
  assumes "concat ts \<noteq> []"
  shows "\<exists>t s'. task_step raises t (ts, trace) = Some s'"
proof -
  from assms obtain task where "task \<in> set ts" "task \<noteq> []"
    by auto
  then obtain t where t: "t < length ts" "ts ! t \<noteq> []"
    by (auto simp: in_set_conv_nth)
  then obtain i rest where "ts ! t = i # rest"
    by (cases "ts ! t") auto
  then show ?thesis
    using t(1) by (intro exI [of _ t]) simp
qed

lemma run_tasks_completes:
  "\<exists>sched s'. run_tasks raises sched s = Some s' \<and> concat (fst s') = []"
proof (induction "length (concat (fst s))" arbitrary: s rule: less_induct)
  case less
  obtain ts trace where s: "s = (ts, trace)" by (cases s)
  show ?case
  proof (cases "concat ts = []")
    case True
    then have "run_tasks raises [] s = Some s \<and> concat (fst s) = []"
      by (simp add: s)
    then show ?thesis by blast
  next
    case False
    then obtain t s1 where s1: "task_step raises t s = Some s1"
      using task_step_enabled [of ts raises trace] s by auto
    from less [OF task_step_shrinks [OF s1]] obtain sched s' where
      "run_tasks raises sched s1 = Some s'" "concat (fst s') = []"
      by blast
    then have "run_tasks raises (t # sched) s = Some s' \<and> concat (fst s') = []"
      using s1 by simp
    then show ?thesis by blast
  qed
qed

lemma run_task_alone:
  assumes "t < length ts" and "\<forall>i \<in> set l. \<not> raises i"
  shows "run_tasks raises (replicate (length l) t) (ts[t := l], trace)
           = Some (ts[t := []], trace @ l)"
  using assms
proof (induction l arbitrary: trace)
  case Nil
  then show ?case by simp
next
  case (Cons i l)
  have "task_step raises t (ts[t := i # l], trace) = Some (ts[t := l], trace @ [i])"
    using Cons.prems by simp
  then show ?case
    using Cons.IH [of "trace @ [i]"] Cons.prems by simp
qed

lemma await_all_conserve:
  assumes "await_all raises sched futures = Some trace" and "\<And>i. \<not> raises i"
  shows "mset trace = mset (concat (map (\<lambda>c. [fst c..<snd c]) futures))"
proof -
  from assms(1) obtain s where
    s: "run_tasks raises sched (map (\<lambda>c. [fst c..<snd c]) futures, []) = Some s"
      "concat (fst s) = []" "snd s = trace"
    by (auto simp: await_all_def split: option.splits if_splits)
  from run_tasks_conserve [OF assms(2) s(1)] show ?thesis
    using s(2,3) by simp
qed

lemma await_all_returns:
  "\<exists>sched trace. await_all raises sched futures = Some trace"
proof -
  obtain sched s' where
    "run_tasks raises sched (map (\<lambda>c. [fst c..<snd c]) futures, []) = Some s'" "concat (fst s') = []"
    using run_tasks_completes by blast
  then have "await_all raises sched futures = Some (snd s')"
    by (simp add: await_all_def)
  then show ?thesis by blast
qed

lemma sequential_no_raise:
  "\<forall>i \<in> set l. \<not> raises i \<Longrightarrow> sequential raises l trace = (Inr (), trace @ l)"
  by (induction l arbitrary: trace) simp_all

subsection \<open>Chunks of parallel\_for and parallel\_for\_static\<close>

lemma upt_append_upt: "a \<le> b \<Longrightarrow> b \<le> c \<Longrightarrow> [a..<b] @ [b..<c] = [a..<c]"
  by (metis le_Suc_ex upt_add_eq_append)

lemma spawn_chunks_concat:
  "t \<le> n \<Longrightarrow>
   concat (map (\<lambda>c. [fst c..<snd c]) (spawn_chunks t n start e c))
     = [min (start + t * c) e..<min (start + n * c) e]"
proof (induction t n start e c rule: spawn_chunks.induct)
  case (1 t n start e c)
  show ?case
  proof (cases "t < n")
    case False
    then have "t = n" using "1.prems" by simp
    then show ?thesis by (simp add: spawn_chunks.simps [of n n])
  next
    case True
    define cs where "cs = start + t * c"
    define ce where "ce = min (cs + c) e"
    have ih: "concat (map (\<lambda>c. [fst c..<snd c]) (spawn_chunks (t + 1) n start e c))
        = [min (start + (t + 1) * c) e..<min (start + n * c) e]"
      using "1.IH" [OF True refl refl] True by simp
    have ce: "min (start + (t + 1) * c) e = ce"
      by (simp add: ce_def cs_def algebra_simps)
    have mono: "ce \<le> min (start + n * c) e"
    proof -
      have "(t + 1) * c \<le> n * c" using True by (intro mult_le_mono1) simp
      then show ?thesis unfolding ce [symmetric] by simp
    qed
    define rest where "rest = spawn_chunks (t + 1) n start e c"
    have ih': "concat (map (\<lambda>c. [fst c..<snd c]) rest) = [ce..<min (start + n * c) e]"
      unfolding rest_def by (simp only: ih ce)
    have unfold: "spawn_chunks t n start e c = (if cs < ce then [(cs, ce)] else []) @ rest"
      using True unfolding rest_def by (subst spawn_chunks.simps) (simp add: Let_def cs_def ce_def)
    show ?thesis
    proof (cases "cs < ce")
      case lt: True
      then have "min cs e = cs" by (simp add: ce_def)
      moreover have "[cs..<ce] @ [ce..<min (start + n * c) e] = [cs..<min (start + n * c) e]"
        using lt mono by (intro upt_append_upt) simp_all
      ultimately show ?thesis
        using lt by (simp add: unfold ih' cs_def [symmetric])
    next
      case ge: False
      then have "min cs e = ce"
        by (auto simp: ce_def min_def)
      then show ?thesis
        using ge by (simp add: unfold ih' cs_def [symmetric])
    qed
  qed
qed

lemma ceil_div_covers:
  fixes r n :: nat
  assumes "0 < n"
  shows "r \<le> n * ((r + n - 1) div n)"
proof -
  have "(r + n - 1) mod n \<le> n - 1"
    using assms by (simp add: less_Suc_eq_le [symmetric])
  moreover have "n * ((r + n - 1) div n) + (r + n - 1) mod n = r + n - 1"
    by simp
  ultimately show ?thesis
    using assms by linarith
qed

lemma parallel_for_chunks_cover:
  assumes "start < e" and "0 < n"
  shows "concat (map (\<lambda>c. [fst c..<snd c])
           (spawn_chunks 0 n start e ((e - start + n - 1) div n))) = [start..<e]"
proof -
  have "e - start \<le> n * ((e - start + n - 1) div n)"
    using assms(2) by (rule ceil_div_covers)
  then have "min (start + n * ((e - start + n - 1) div n)) e = e"
    using assms(1) by simp
  then show ?thesis
    using spawn_chunks_concat [of 0 n start e "(e - start + n - 1) div n"] assms(1) by simp
qed

lemma static_chunks_cover:
  "0 < c \<Longrightarrow> i \<le> e \<Longrightarrow>
   \<exists>cs. static_chunks i e c futures = Some (futures @ cs)
        \<and> concat (map (\<lambda>c. [fst c..<snd c]) cs) = [i..<e]"
proof (induction "e - i" arbitrary: i futures rule: less_induct)
  case less
  show ?case
  proof (cases "i < e")
    case False
    then have "static_chunks i e c futures = Some (futures @ [])"
      by (subst static_chunks.simps) simp
    then show ?thesis
      using False less.prems by (intro exI [of _ "[]"]) simp
  next
    case True
    define j where "j = min (i + c) e"
    have j: "i < j" "j \<le> e" using True less.prems by (simp_all add: j_def)
    show ?thesis
    proof (cases "i + c \<le> e")
      case le: True
      then have jc: "j = i + c" by (simp add: j_def)
      have "e - (i + c) < e - i" using less.prems True by simp
      from less.hyps [OF this less.prems(1) le, of "futures @ [(i, j)]"]
      obtain cs where cs: "static_chunks (i + c) e c (futures @ [(i, j)]) = Some ((futures @ [(i, j)]) @ cs)"
          "concat (map (\<lambda>c. [fst c..<snd c]) cs) = [i + c..<e]"
        by blast
      have "static_chunks i e c futures = Some (futures @ ((i, j) # cs))"
        using True cs(1) by (subst static_chunks.simps) (simp add: j_def)
      moreover have "concat (map (\<lambda>c. [fst c..<snd c]) ((i, j) # cs)) = [i..<e]"
        using cs(2) j upt_append_upt [of i j e] by (simp add: jc)
      ultimately show ?thesis by blast
    next
      case gt: False
      then have je: "j = e" by (simp add: j_def)
      have "static_chunks (i + c) e c (futures @ [(i, j)]) = Some (futures @ [(i, j)])"
        using gt by (subst static_chunks.simps) simp
      then have "static_chunks i e c futures = Some (futures @ [(i, j)])"
        using True by (subst static_chunks.simps) (simp add: j_def)
      moreover have "concat (map (\<lambda>c. [fst c..<snd c]) [(i, j)]) = [i..<e]"
        by (simp add: je)
      ultimately show ?thesis by blast
    qed
  qed
qed

lemma write_slots_eq:
  "write_slots g trace m = (\<lambda>i. if i \<in> set trace then Some (g i) else m i)"
proof (induction trace arbitrary: m rule: rev_induct)
  case Nil
  show ?case by (simp add: write_slots_def)
next
  case (snoc x xs)
  have "write_slots g (xs @ [x]) m = (write_slots g xs m)(x \<mapsto> g x)"
    by (simp add: write_slots_def)
  then show ?case
    by (auto simp: snoc)
qed

lemma write_slots_permuted:
  "mset trace = mset trace' \<Longrightarrow> write_slots g trace m = write_slots g trace' m"
  using mset_eq_setD [of trace trace'] by (simp add: write_slots_eq)

lemma count_list_upt:
  "count_list [a..<b] i = (if a \<le> i \<and> i < b then 1 else 0)"
  by (induction b) auto

lemma count_list_mset_eq:
  "mset xs = mset ys \<Longrightarrow> count_list xs i = count_list ys i"
  by (metis count_mset)

subsection \<open>The dynamic scheduler\<close>

lemma dynamic_step_elim:
  assumes "dynamic_step e k t s = Some s'"
  obtains
    (claim_chunk) "t < length (claimers s)" "claimers s ! t = Claim" "next_chunk s < e"
      "s' = s\<lparr>next_chunk := next_chunk s + k,
              claimers := (claimers s)[t := Visit [next_chunk s..<min (next_chunk s + k) e]]\<rparr>"
  | (claim_exit) "t < length (claimers s)" "claimers s ! t = Claim" "e \<le> next_chunk s"
      "s' = s\<lparr>next_chunk := next_chunk s + k, claimers := (claimers s)[t := Finished]\<rparr>"
  | (chunk_end) "t < length (claimers s)" "claimers s ! t = Visit []"
      "s' = s\<lparr>claimers := (claimers s)[t := Claim]\<rparr>"
  | (visit) i rest where "t < length (claimers s)" "claimers s ! t = Visit (i # rest)"
      "s' = s\<lparr>claimers := (claimers s)[t := Visit rest], visited := visited s @ [i]\<rparr>"
  using assms unfolding dynamic_step_def
  by (auto split: if_splits claimer.splits list.splits simp: Let_def)

lemma pending_update_mset:
  assumes "t < length cl"
  shows "mset (concat (map pending (cl[t := x]))) + mset (pending (cl ! t))
       = mset (concat (map pending cl)) + mset (pending x)"
  using concat_update_mset [of t "map pending cl" "pending x"] assms
  by (simp add: map_update)

lemma weight_update:
  "t < length cl \<Longrightarrow>
   sum_list (map weight (cl[t := x])) + weight (cl ! t) = sum_list (map weight cl) + weight x"
proof (induction cl arbitrary: t)
  case Nil
  then show ?case by simp
next
  case (Cons c cl)
  show ?case
  proof (cases t)
    case 0
    then show ?thesis by simp
  next
    case (Suc j)
    then have "j < length cl" using Cons.prems by simp
    from Cons.IH [OF this] show ?thesis
      using Suc by simp
  qed
qed

lemma dynamic_step_total:
  assumes "dynamic_step e k t s = Some s'"
  shows "dynamic_total e s' = dynamic_total e s"
  using assms
proof (cases rule: dynamic_step_elim)
  case claim_chunk
  define c where "c = next_chunk s"
  define j where "j = min (c + k) e"
  define P where "P = mset (concat (map pending (claimers s)))"
  define P' where "P' = mset (concat (map pending ((claimers s)[t := Visit [c..<j]])))"
  have j: "c \<le> j" "j \<le> e" using claim_chunk(3) by (simp_all add: j_def c_def)
  have split: "mset [c..<e] = mset [c..<j] + mset [j..<e]"
    using upt_append_upt [OF j] by (metis mset_append)
  have P': "P' = P + mset [c..<j]"
    unfolding P_def P'_def
    using pending_update_mset [OF claim_chunk(1), of "Visit [c..<j]"] claim_chunk(2) by simp
  have "min (c + k) e = j" by (simp add: j_def)
  then have new: "dynamic_total e s' = mset (visited s) + P' + mset [j..<e]"
    by (simp add: claim_chunk(4) dynamic_total_def c_def [symmetric] j_def [symmetric] P'_def)
  have "min c e = c" using claim_chunk(3) by (simp add: c_def)
  then have old: "dynamic_total e s = mset (visited s) + P + mset [c..<e]"
    by (simp add: dynamic_total_def c_def [symmetric] P_def)
  show ?thesis
    unfolding new old P' split by (simp only: ac_simps)
next
  case claim_exit
  have "mset (concat (map pending ((claimers s)[t := Finished])))
      = mset (concat (map pending (claimers s)))"
    using pending_update_mset [OF claim_exit(1), of Finished] claim_exit(2) by simp
  then show ?thesis
    using claim_exit(3,4) by (simp add: dynamic_total_def min_absorb2)
next
  case chunk_end
  have "mset (concat (map pending ((claimers s)[t := Claim])))
      = mset (concat (map pending (claimers s)))"
    using pending_update_mset [OF chunk_end(1), of Claim] chunk_end(2) by simp
  then show ?thesis
    using chunk_end(3) by (simp add: dynamic_total_def)
next
  case (visit i rest)
  have "mset (concat (map pending ((claimers s)[t := Visit rest]))) + mset (i # rest)
      = mset (concat (map pending (claimers s))) + mset rest"
    using pending_update_mset [OF visit(1), of "Visit rest"] visit(2) by simp
  then have "mset (concat (map pending ((claimers s)[t := Visit rest]))) + {#i#}
      = mset (concat (map pending (claimers s)))"
    by simp
  then show ?thesis
    using visit(3) by (simp add: dynamic_total_def ac_simps)
qed

lemma finished_after_update:
  "x \<noteq> Finished \<Longrightarrow> Finished \<in> set (cl[t := x]) \<Longrightarrow> Finished \<in> set cl"
  using set_update_subset_insert [of cl t x] by auto

lemma dynamic_step_exit_seen:
  assumes "dynamic_step e k t s = Some s'"
    and "Finished \<in> set (claimers s) \<longrightarrow> e \<le> next_chunk s"
  shows "Finished \<in> set (claimers s') \<longrightarrow> e \<le> next_chunk s'"
  using assms(1)
proof (cases rule: dynamic_step_elim)
  case claim_chunk
  then show ?thesis
    using assms(2) finished_after_update [of "Visit [next_chunk s..<min (next_chunk s + k) e]" "claimers s" t]
    by auto
next
  case claim_exit
  then show ?thesis by simp
next
  case chunk_end
  then show ?thesis
    using assms(2) finished_after_update [of Claim "claimers s" t] by auto
next
  case (visit i rest)
  then show ?thesis
    using assms(2) finished_after_update [of "Visit rest" "claimers s" t] by auto
qed

lemma dynamic_step_length:
  assumes "dynamic_step e k t s = Some s'"
  shows "length (claimers s') = length (claimers s)"
  using assms by (cases rule: dynamic_step_elim) simp_all

lemma run_dynamic_invariants:
  "run_dynamic e k sched s = Some s' \<Longrightarrow>
   (Finished \<in> set (claimers s) \<longrightarrow> e \<le> next_chunk s) \<Longrightarrow>
   dynamic_total e s' = dynamic_total e s
   \<and> (Finished \<in> set (claimers s') \<longrightarrow> e \<le> next_chunk s')
   \<and> length (claimers s') = length (claimers s)"
proof (induction sched arbitrary: s)
  case Nil
  then show ?case by simp
next
  case (Cons t sched)
  then obtain s1 where s1: "dynamic_step e k t s = Some s1" "run_dynamic e k sched s1 = Some s'"
    by (auto split: option.splits)
  have f: "Finished \<in> set (claimers s1) \<longrightarrow> e \<le> next_chunk s1"
    using dynamic_step_exit_seen [OF s1(1) Cons.prems(2)] .
  from Cons.IH [OF s1(2) f] dynamic_step_total [OF s1(1)] dynamic_step_length [OF s1(1)]
  show ?case by simp
qed

lemma all_finished_iff:
  "all_finished s \<longleftrightarrow> set (claimers s) \<subseteq> {Finished}"
  by (auto simp: all_finished_def filter_empty_conv)

lemma all_finished_pending:
  assumes "all_finished s"
  shows "concat (map pending (claimers s)) = []"
proof -
  have "\<And>c. c \<in> set (claimers s) \<Longrightarrow> pending c = []"
    using assms by (auto simp: all_finished_iff)
  then show ?thesis by simp
qed

lemma dynamic_visits_all:
  assumes run: "run_dynamic e k sched
        \<lparr>next_chunk = start, claimers = replicate n Claim, visited = []\<rparr> = Some s"
    and fin: "all_finished s" and n: "0 < n" and se: "start \<le> e"
  shows "mset (visited s) = mset [start..<e]"
proof -
  define s0 where "s0 = \<lparr>next_chunk = start, claimers = replicate n Claim, visited = []\<rparr>"
  have f0: "Finished \<in> set (claimers s0) \<longrightarrow> e \<le> next_chunk s0"
    by (simp add: s0_def)
  from run_dynamic_invariants [OF run [folded s0_def] f0]
  have tot: "dynamic_total e s = dynamic_total e s0"
    and ex: "Finished \<in> set (claimers s) \<longrightarrow> e \<le> next_chunk s"
    and len: "length (claimers s) = length (claimers s0)"
    by simp_all
  have "claimers s \<noteq> []" using len n by (auto simp: s0_def)
  then obtain c where "c \<in> set (claimers s)" by (cases "claimers s") auto
  then have "Finished \<in> set (claimers s)"
    using fin by (auto simp: all_finished_iff)
  then have past: "e \<le> next_chunk s" using ex by simp
  have "concat (map pending (replicate n Claim)) = []"
    by (induction n) simp_all
  then have "dynamic_total e s0 = mset [start..<e]"
    using se by (simp add: dynamic_total_def s0_def min_absorb1)
  moreover have "dynamic_total e s = mset (visited s)"
    using past all_finished_pending [OF fin] by (simp add: dynamic_total_def min_absorb2)
  ultimately show ?thesis using tot by simp
qed

lemma dynamic_step_decreases:
  assumes "dynamic_step e k t s = Some s'" and "0 < k"
  shows "dynamic_measure e s' < dynamic_measure e s"
  using assms(1)
proof (cases rule: dynamic_step_elim)
  case claim_chunk
  define c where "c = next_chunk s"
  define m where "m = min (c + k) e - c"
  define W where "W = sum_list (map weight (claimers s))"
  define W' where "W' = sum_list (map weight ((claimers s)[t := Visit [c..<min (c + k) e]]))"
  have w: "W' + 1 = W + (m + 2)"
    unfolding W_def W'_def m_def
    using weight_update [OF claim_chunk(1), of "Visit [c..<min (c + k) e]"] claim_chunk(2)
    by simp
  have ineq: "(m + 2) + 3 * (e - (c + k)) < 1 + 3 * (e - c)"
    using claim_chunk(3) assms(2) by (auto simp: c_def m_def min_def)
  have new: "dynamic_measure e s' = W' + 3 * (e - (c + k))"
    by (simp add: claim_chunk(4) dynamic_measure_def c_def [symmetric] W'_def)
  have old: "dynamic_measure e s = W + 3 * (e - c)"
    by (simp add: dynamic_measure_def c_def [symmetric] W_def)
  show ?thesis
    unfolding new old using w ineq by linarith
next
  case claim_exit
  have "sum_list (map weight ((claimers s)[t := Finished])) + 1 = sum_list (map weight (claimers s))"
    using weight_update [OF claim_exit(1), of Finished] claim_exit(2) by simp
  then show ?thesis
    using claim_exit(3,4) by (simp add: dynamic_measure_def)
next
  case chunk_end
  have "sum_list (map weight ((claimers s)[t := Claim])) + 2 = sum_list (map weight (claimers s)) + 1"
    using weight_update [OF chunk_end(1), of Claim] chunk_end(2) by simp
  then show ?thesis
    using chunk_end(3) by (simp add: dynamic_measure_def)
next
  case (visit i rest)
  have "sum_list (map weight ((claimers s)[t := Visit rest])) + (length rest + 3)
      = sum_list (map weight (claimers s)) + (length rest + 2)"
    using weight_update [OF visit(1), of "Visit rest"] visit(2) by simp
  then show ?thesis
    using visit(3) by (simp add: dynamic_measure_def)
qed

lemma run_dynamic_bounded:
  assumes "0 < k"
  shows "run_dynamic e k sched s = Some s' \<Longrightarrow>
    length sched + dynamic_measure e s' \<le> dynamic_measure e s"
proof (induction sched arbitrary: s)
  case Nil
  then show ?case by simp
next
  case (Cons t sched)
  then obtain s1 where s1: "dynamic_step e k t s = Some s1" "run_dynamic e k sched s1 = Some s'"
    by (auto split: option.splits)
  from Cons.IH [OF s1(2)] dynamic_step_decreases [OF s1(1) assms] show ?case
    by simp
qed

lemma dynamic_step_enabled:
  assumes "t < length (claimers s)" and "claimers s ! t \<noteq> Finished"
  shows "\<exists>s'. dynamic_step e k t s = Some s'"
  using assms unfolding dynamic_step_def
  by (auto split: claimer.splits list.splits simp: Let_def)

lemma run_dynamic_completes:
  assumes "0 < k"
  shows "\<exists>sched s'. run_dynamic e k sched s = Some s' \<and> all_finished s'"
proof (induction "dynamic_measure e s" arbitrary: s rule: less_induct)
  case less
  show ?case
  proof (cases "all_finished s")
    case True
    then have "run_dynamic e k [] s = Some s \<and> all_finished s" by simp
    then show ?thesis by blast
  next
    case False
    then obtain c where "c \<in> set (claimers s)" "c \<noteq> Finished"
      by (auto simp: all_finished_iff)
    then obtain t where t: "t < length (claimers s)" "claimers s ! t \<noteq> Finished"
      by (auto simp: in_set_conv_nth)
    then obtain s1 where s1: "dynamic_step e k t s = Some s1"
      using dynamic_step_enabled by blast
    from less [OF dynamic_step_decreases [OF s1 assms]] obtain sched s' where
      "run_dynamic e k sched s1 = Some s'" "all_finished s'"
      by blast
    then have "run_dynamic e k (t # sched) s = Some s' \<and> all_finished s'"
      using s1 by simp
    then show ?thesis by blast
  qed
qed

lemma stuck_iff:
  "stuck start n s \<longleftrightarrow>
     next_chunk s = start \<and> visited s = [] \<and> length (claimers s) = n
     \<and> set (claimers s) \<subseteq> {Claim, Visit []}"
  by (auto simp: stuck_def filter_empty_conv)

lemma stuck_step:
  assumes "stuck start n s" and "start < e" and "t < n"
  shows "\<exists>s'. dynamic_step e 0 t s = Some s' \<and> stuck start n s'"
proof -
  have t: "t < length (claimers s)"
    using assms(1,3) by (simp add: stuck_iff)
  then have "claimers s ! t \<in> set (claimers s)"
    by simp
  then have c: "claimers s ! t = Claim \<or> claimers s ! t = Visit []"
    using assms(1) by (auto simp: stuck_iff)
  from c show ?thesis
  proof
    assume "claimers s ! t = Claim"
    then have "dynamic_step e 0 t s = Some (s\<lparr>next_chunk := next_chunk s,
        claimers := (claimers s)[t := Visit []]\<rparr>)"
      using t assms(1,2) by (simp add: dynamic_step_def stuck_iff)
    moreover have "stuck start n (s\<lparr>next_chunk := next_chunk s,
        claimers := (claimers s)[t := Visit []]\<rparr>)"
      using assms(1) set_update_subset_insert [of "claimers s" t "Visit []"]
      by (auto simp: stuck_iff)
    ultimately show ?thesis by blast
  next
    assume "claimers s ! t = Visit []"
    then have "dynamic_step e 0 t s = Some (s\<lparr>claimers := (claimers s)[t := Claim]\<rparr>)"
      using t by (simp add: dynamic_step_def)
    moreover have "stuck start n (s\<lparr>claimers := (claimers s)[t := Claim]\<rparr>)"
      using assms(1) set_update_subset_insert [of "claimers s" t Claim]
      by (auto simp: stuck_iff)
    ultimately show ?thesis by blast
  qed
qed

lemma stuck_run:
  assumes "start < e"
  shows "run_dynamic e 0 sched s = Some s' \<Longrightarrow> stuck start n s \<Longrightarrow> stuck start n s'"
proof (induction sched arbitrary: s)
  case Nil
  then show ?case by simp
next
  case (Cons t sched)
  then obtain s1 where s1: "dynamic_step e 0 t s = Some s1" "run_dynamic e 0 sched s1 = Some s'"
    by (auto split: option.splits)
  have "t < n"
    using s1(1) Cons.prems(2) by (cases rule: dynamic_step_elim) (simp_all add: stuck_iff)
  from stuck_step [OF Cons.prems(2) assms this] s1(1) have "stuck start n s1"
    by auto
  from Cons.IH [OF s1(2) this] show ?case .
qed

lemma stuck_forever:
  assumes "start < e" and "0 < n"
  shows "stuck start n s \<Longrightarrow> \<exists>s'. run_dynamic e 0 (replicate m 0) s = Some s'"
proof (induction m arbitrary: s)
  case 0
  then show ?case by simp
next
  case (Suc m)
  from stuck_step [OF Suc.prems assms] obtain s1 where
    "dynamic_step e 0 0 s = Some s1" "stuck start n s1"
    by blast
  with Suc.IH [of s1] show ?case by simp
qed

lemma stuck_not_finished:
  assumes "stuck start n s" and "0 < n"
  shows "\<not> all_finished s"
proof
  assume "all_finished s"
  moreover have "claimers s \<noteq> []"
    using assms by (auto simp: stuck_iff)
  then obtain c where "c \<in> set (claimers s)"
    by (cases "claimers s") auto
  ultimately show False
    using assms(1) by (auto simp: stuck_iff all_finished_iff)
qed

subsection \<open>The three entry points\<close>

lemma never_raises_sequential:
  "sequential (\<lambda>i. False) l [] = (Inr (), l)"
  using sequential_no_raise [of l "\<lambda>i. False" "[]"] by simp

lemma parallel_for_exact:
  assumes "parallel_for n (\<lambda>i. False) start e sched = Some (r, trace)"
  shows "r = Inr () \<and> mset trace = mset [start..<e]"
proof (cases "e \<le> start")
  case True
  then show ?thesis
    using assms by (simp add: parallel_for_def)
next
  case False
  then have se: "start < e" by simp
  show ?thesis
  proof (cases "e - start > 1000 \<and> n > 1")
    case fork: True
    define futures where "futures = spawn_chunks 0 n start e ((e - start + n - 1) div n)"
    from assms have aw: "await_all (\<lambda>i. False) sched futures = Some trace" and r: "r = Inr ()"
      using False fork
      by (auto simp: parallel_for_def Let_def futures_def split: option.splits)
    have "concat (map (\<lambda>c. [fst c..<snd c]) futures) = [start..<e]"
      unfolding futures_def using se fork by (intro parallel_for_chunks_cover) simp_all
    then show ?thesis
      using await_all_conserve [OF aw] r by simp
  next
    case seq: False
    then show ?thesis
      using assms False by (auto simp: parallel_for_def Let_def never_raises_sequential)
  qed
qed

lemma parallel_for_returns:
  "\<exists>sched r trace. parallel_for n raises start e sched = Some (r, trace)"
proof (cases "\<not> e \<le> start \<and> e - start > 1000 \<and> n > 1")
  case True
  obtain sched trace where
    "await_all raises sched (spawn_chunks 0 n start e ((e - start + n - 1) div n)) = Some trace"
    using await_all_returns by blast
  then have "parallel_for n raises start e sched = Some (Inr (), trace)"
    using True by (simp add: parallel_for_def Let_def)
  then show ?thesis by blast
next
  case False
  then have "\<exists>x. parallel_for n raises start e [] = Some x"
    by (auto simp: parallel_for_def Let_def)
  then show ?thesis by (metis surj_pair)
qed

lemma auto_chunk_size_positive:
  "0 < auto_chunk_size a start e c"
  by (auto simp: auto_chunk_size_def max_def)

lemma parallel_for_static_exact:
  assumes "parallel_for_static a n (\<lambda>i. False) start e c sched = Some (r, trace)"
    and "\<not> (c = 0 \<and> (a * 4) mod 2 ^ 32 = 0)"
  shows "r = Inr () \<and> mset trace = mset [start..<e]"
proof (cases "e \<le> start")
  case True
  then show ?thesis
    using assms by (simp add: parallel_for_static_def)
next
  case False
  define k where "k = auto_chunk_size a start e c"
  have k: "0 < k" unfolding k_def by (rule auto_chunk_size_positive)
  show ?thesis
  proof (cases "e - start > k \<and> n > 1")
    case fork: True
    obtain futures where f: "static_chunks start e k [] = Some ([] @ futures)"
        "concat (map (\<lambda>c. [fst c..<snd c]) futures) = [start..<e]"
      using static_chunks_cover [OF k, of start e "[]"] False by auto
    from assms have aw: "await_all (\<lambda>i. False) sched futures = Some trace" and r: "r = Inr ()"
      using False fork f(1)
      by (auto simp: parallel_for_static_def Let_def k_def [symmetric] split: option.splits)
    show ?thesis
      using await_all_conserve [OF aw] r f(2) by simp
  next
    case seq: False
    then show ?thesis
      using assms False
      by (auto simp: parallel_for_static_def Let_def k_def [symmetric] never_raises_sequential)
  qed
qed

lemma parallel_for_static_returns:
  assumes "\<not> (c = 0 \<and> (a * 4) mod 2 ^ 32 = 0)"
  shows "\<exists>sched trace. parallel_for_static a n (\<lambda>i. False) start e c sched = Some (Inr (), trace)"
proof (cases "e \<le> start")
  case True
  then have "parallel_for_static a n (\<lambda>i. False) start e c [] = Some (Inr (), [])"
    by (simp add: parallel_for_static_def)
  then show ?thesis by blast
next
  case False
  define k where "k = auto_chunk_size a start e c"
  have k: "0 < k" unfolding k_def by (rule auto_chunk_size_positive)
  show ?thesis
  proof (cases "e - start > k \<and> n > 1")
    case fork: True
    obtain futures where f: "static_chunks start e k [] = Some ([] @ futures)"
      using static_chunks_cover [OF k, of start e "[]"] False by auto
    obtain sched trace where "await_all (\<lambda>i. False) sched futures = Some trace"
      using await_all_returns by blast
    then have "parallel_for_static a n (\<lambda>i. False) start e c sched = Some (Inr (), trace)"
      using False fork f assms by (auto simp: parallel_for_static_def Let_def k_def [symmetric])
    then show ?thesis by blast
  next
    case seq: False
    then have "parallel_for_static a n (\<lambda>i. False) start e c [] = Some (Inr (), [start..<e])"
      using False assms
      by (auto simp: parallel_for_static_def Let_def k_def [symmetric] never_raises_sequential)
    then show ?thesis by blast
  qed
qed

lemma parallel_for_dynamic_exact:
  assumes "parallel_for_dynamic n start e c sched = Some trace"
  shows "mset trace = mset [start..<e]"
proof (cases "e \<le> start")
  case True
  then show ?thesis
    using assms by (simp add: parallel_for_dynamic_def)
next
  case False
  show ?thesis
  proof (cases "e - start > c \<and> n > 1")
    case fork: True
    from assms obtain s where
      s: "run_dynamic e c sched \<lparr>next_chunk = start, claimers = replicate n Claim, visited = []\<rparr> = Some s"
        "all_finished s" "visited s = trace"
      using False fork
      by (auto simp: parallel_for_dynamic_def split: option.splits if_splits)
    have "mset (visited s) = mset [start..<e]"
      using s(1,2) fork False by (intro dynamic_visits_all [of e c sched start n]) simp_all
    then show ?thesis using s(3) by simp
  next
    case seq: False
    then show ?thesis
      using assms False by (auto simp: parallel_for_dynamic_def)
  qed
qed

lemma parallel_for_dynamic_returns:
  assumes "0 < c"
  shows "\<exists>sched trace. parallel_for_dynamic n start e c sched = Some trace"
proof (cases "\<not> e \<le> start \<and> e - start > c \<and> n > 1")
  case True
  obtain sched s where
    "run_dynamic e c sched \<lparr>next_chunk = start, claimers = replicate n Claim, visited = []\<rparr> = Some s"
    "all_finished s"
    using run_dynamic_completes [OF assms] by blast
  then have "parallel_for_dynamic n start e c sched = Some (visited s)"
    using True by (simp add: parallel_for_dynamic_def)
  then show ?thesis by blast
next
  case False
  then have "\<exists>x. parallel_for_dynamic n start e c [] = Some x"
    by (auto simp: parallel_for_dynamic_def)
  then show ?thesis by blast
qed

lemma parallel_for_dynamic_zero_chunk:
  assumes "start < e" and "1 < n"
  shows "parallel_for_dynamic n start e 0 sched = None"
proof -
  define s0 where "s0 = \<lparr>next_chunk = start, claimers = replicate n Claim, visited = []\<rparr>"
  have st: "stuck start n s0"
    by (auto simp: stuck_iff s0_def)
  have "\<And>s. run_dynamic e 0 sched s0 = Some s \<Longrightarrow> \<not> all_finished s"
    using stuck_run [OF assms(1) _ st] stuck_not_finished assms(2) by (metis less_trans zero_less_one)
  then show ?thesis
    using assms by (auto simp: parallel_for_dynamic_def s0_def [symmetric] split: option.splits)
qed

lemma exactly_once_count:
  assumes "mset trace = mset [start..<e]"
  shows "count_list trace i = (if start \<le> i \<and> i < e then 1 else 0)"
  using count_list_mset_eq [OF assms, of i] by (simp add: count_list_upt)

lemma run_tasks_append:
  "run_tasks raises (xs @ ys) s =
     (case run_tasks raises xs s of None \<Rightarrow> None | Some s' \<Rightarrow> run_tasks raises ys s')"
  by (induction xs arbitrary: s) (simp_all split: option.splits)

subsection \<open>Two concrete executions of parallel\_for on a pool of two workers\<close>

lemma two_chunks_of_1002:
  "spawn_chunks 0 2 0 1002 501 = [(0, 501), (501, 1002)]"
  by (simp add: spawn_chunks.simps)

lemma run_two_tasks_in_turn:
  assumes "\<forall>i \<in> set A. \<not> raises i" and "\<forall>i \<in> set B. \<not> raises i"
  shows "run_tasks raises (replicate (length A) 0 @ replicate (length B) 1) ([A, B], [])
           = Some ([[], []], A @ B)"
proof -
  have a: "run_tasks raises (replicate (length A) 0) ([A, B], []) = Some ([[], B], A)"
    using run_task_alone [of 0 "[A, B]" A raises "[]"] assms(1) by simp
  have b: "run_tasks raises (replicate (length B) 1) ([[], B], A) = Some ([[], []], A @ B)"
    using run_task_alone [of 1 "[[], B]" B raises A] assms(2) by simp
  show ?thesis
    by (simp only: run_tasks_append a b option.case)
qed

lemma run_first_task_fails:
  assumes "raises i" and "\<forall>j \<in> set B. \<not> raises j"
  shows "run_tasks raises (0 # replicate (length B) 1) ([i # A, B], [])
           = Some ([[], []], i # B)"
proof -
  have a: "task_step raises 0 ([i # A, B], []) = Some ([[], B], [i])"
    using assms(1) by simp
  have b: "run_tasks raises (replicate (length B) 1) ([[], B], [i]) = Some ([[], []], [i] @ B)"
    using run_task_alone [of 1 "[[], B]" B raises "[i]"] assms(2) by simp
  show ?thesis
    using b by (simp only: run_tasks.simps a option.case append_Cons append_Nil)
qed

lemma parallel_for_1002_in_turn:
  "parallel_for 2 (\<lambda>i. False) 0 1002 (replicate 501 0 @ replicate 501 1)
     = Some (Inr (), [0..<1002])"
proof -
  define A where "A = [0..<501::nat]"
  define B where "B = [501..<1002::nat]"
  define S where "S = replicate 501 0 @ replicate 501 (1::nat)"
  define R where "R = [0..<1002::nat]"
  have len: "length A = 501" "length B = 501"
    by (simp_all add: A_def B_def del: upt_rec_numeral)
  have ab: "A @ B = R"
    unfolding A_def B_def R_def by (rule upt_append_upt) simp_all
  have ts: "map (\<lambda>c. [fst c..<snd c]) [(0, 501), (501, 1002)] = [A, B]"
    by (simp add: A_def B_def del: upt_rec_numeral)
  have "run_tasks (\<lambda>i. False) (replicate (length A) 0 @ replicate (length B) 1) ([A, B], [])
      = Some ([[], []], A @ B)"
    by (rule run_two_tasks_in_turn) simp_all
  then have "run_tasks (\<lambda>i. False) S ([A, B], []) = Some ([[], []], R)"
    by (simp only: len ab S_def)
  then have "await_all (\<lambda>i. False) S [(0, 501), (501, 1002)] = Some R"
    by (simp only: await_all_def ts option.case fst_conv snd_conv concat.simps append_Nil
        simp_thms if_True)
  then have "parallel_for 2 (\<lambda>i. False) 0 1002 S = Some (Inr (), R)"
    by (simp add: parallel_for_def two_chunks_of_1002 del: upt_rec_numeral)
  then show ?thesis
    by (simp only: S_def R_def)
qed

lemma parallel_for_1002_first_fails:
  "parallel_for 2 ((=) 0) 0 1002 (0 # replicate 501 1) = Some (Inr (), 0 # [501..<1002])"
proof -
  define A where "A = [Suc 0..<501]"
  define B where "B = [501..<1002::nat]"
  define S where "S = 0 # replicate 501 (1::nat)"
  have len: "length B = 501"
    by (simp add: B_def del: upt_rec_numeral)
  have hd: "[0..<501] = 0 # A"
    unfolding A_def by (rule upt_conv_Cons) simp
  have ts: "map (\<lambda>c. [fst c..<snd c]) [(0, 501), (501, 1002)] = [0 # A, B]"
    by (simp add: hd B_def del: upt_rec_numeral)
  have safe: "\<forall>j \<in> set B. \<not> 0 = j"
    by (simp add: B_def del: upt_rec_numeral)
  have "run_tasks ((=) 0) (0 # replicate (length B) 1) ([0 # A, B], [])
      = Some ([[], []], 0 # B)"
    using refl safe by (rule run_first_task_fails)
  then have "run_tasks ((=) 0) S ([0 # A, B], []) = Some ([[], []], 0 # B)"
    by (simp only: len S_def)
  then have "await_all ((=) 0) S [(0, 501), (501, 1002)] = Some (0 # B)"
    by (simp only: await_all_def ts option.case fst_conv snd_conv concat.simps append_Nil
        simp_thms if_True)
  then have "parallel_for 2 ((=) 0) 0 1002 S = Some (Inr (), 0 # B)"
    by (simp add: parallel_for_def two_chunks_of_1002 del: upt_rec_numeral)
  then show ?thesis
    by (simp only: S_def B_def)
qed

subsection \<open>An execution of parallel\_for at the top of the 64-bit range\<close>

lemma one_chunk_at_top_of_range:
  "spawn_chunks_size_t 0 2 18446744073709550614 18446744073709551615 501
     = [(18446744073709550614, 18446744073709551115)]"
  by (simp add: spawn_chunks_size_t.simps)

lemma parallel_for_size_t_top_of_range:
  "parallel_for_size_t 2 (\<lambda>i. False) 18446744073709550614 18446744073709551615 (replicate 501 0)
     = Some (Inr (), [18446744073709550614..<18446744073709551115])"
proof -
  define A where "A = [18446744073709550614..<18446744073709551115::nat]"
  define S where "S = replicate 501 (0::nat)"
  have len: "length A = 501"
    by (simp add: A_def del: upt_rec_numeral)
  have ts: "map (\<lambda>c. [fst c..<snd c])
       (map (\<lambda>c. (unat (fst c), unat (snd c)))
          [(18446744073709550614 :: 64 word, 18446744073709551115 :: 64 word)]) = [A]"
    by (simp add: A_def del: upt_rec_numeral)
  have "run_tasks (\<lambda>i. False) (replicate (length A) 0) ([A], []) = Some ([[]], A)"
    using run_task_alone [of 0 "[A]" A "\<lambda>i. False" "[]"] by simp
  then have "run_tasks (\<lambda>i. False) S ([A], []) = Some ([[]], A)"
    by (simp only: len S_def)
  then have "await_all (\<lambda>i. False) S (map (\<lambda>c. (unat (fst c), unat (snd c)))
          [(18446744073709550614 :: 64 word, 18446744073709551115 :: 64 word)]) = Some A"
    by (simp only: await_all_def ts option.case fst_conv snd_conv concat.simps append_Nil
        simp_thms if_True)
  then have "parallel_for_size_t 2 (\<lambda>i. False) 18446744073709550614 18446744073709551615 S
      = Some (Inr (), A)"
    by (simp add: parallel_for_size_t_def one_chunk_at_top_of_range del: upt_rec_numeral)
  then show ?thesis
    by (simp only: S_def A_def)
qed

text \<open>
  \<^verbatim>\<open>parallel_for_dynamic\<close> with the default chunk size 1 over the two indices of
  \<open>[2^64 - 3, 2^64 - 1)\<close> on two workers: once both indices are visited, the task that
  reads the cursor at \<open>2^64 - 1\<close> leaves its loop and the cursor wraps to 0; the other
  task then claims the chunk \<open>[0, 1)\<close> and invokes the body on index 0, outside the range.
\<close>

lemma dynamic_cursor_wraps_at_top_of_range:
  "run_dynamic_size_t 18446744073709551615 1 [0, 0, 1, 1, 0, 0, 1, 1, 1]
     \<lparr>next_chunk = 18446744073709551613, claimers = [Claim, Claim], visited = []\<rparr>
   = Some \<lparr>next_chunk = 1, claimers = [Finished, Visit []],
            visited = [18446744073709551613, 18446744073709551614, 0]\<rparr>"
  by (simp add: dynamic_step_size_t_def upt_conv_Cons)

subsection \<open>The 64-bit parallel\_for while no sum wraps\<close>

lemma unat_chunk_bound:
  fixes start c :: "64 word"
  assumes "unat start + k * unat c < 2 ^ 64"
  shows "unat (start + word_of_nat k * c) = unat start + k * unat c"
proof -
  have "unat (word_of_nat k * c) = (unat (word_of_nat k :: 64 word) * unat c) mod 2 ^ 64"
    by (simp add: unat_word_ariths)
  also have "\<dots> = ((k mod 2 ^ 64) * unat c) mod 2 ^ 64"
    by (simp add: unat_of_nat)
  also have "\<dots> = (k * unat c) mod 2 ^ 64"
    by (simp add: mod_mult_left_eq)
  also have "\<dots> = k * unat c"
    using assms by simp
  finally have m: "unat (word_of_nat k * c) = k * unat c" .
  have "unat (start + word_of_nat k * c) = (unat start + unat (word_of_nat k * c)) mod 2 ^ 64"
    by (simp add: unat_word_ariths)
  then show ?thesis
    using assms m by simp
qed

lemma unat_min:
  fixes a b :: "64 word"
  shows "unat (min a b) = min (unat a) (unat b)"
  by (simp add: min_def word_le_nat_alt)

lemma spawn_chunks_size_t_in_range:
  fixes start e c :: "64 word"
  assumes "unat start + n * unat c < 2 ^ 64"
  shows "t \<le> n \<Longrightarrow>
    map (\<lambda>p. (unat (fst p), unat (snd p))) (spawn_chunks_size_t t n start e c)
      = spawn_chunks t n (unat start) (unat e) (unat c)"
proof (induction "n - t" arbitrary: t)
  case 0
  then have "\<not> t < n" by simp
  then show ?case
    by (simp add: spawn_chunks_size_t.simps [of t n] spawn_chunks.simps [of t n])
next
  case (Suc j)
  then have lt: "t < n" and j: "j = n - (t + 1)" and le: "t + 1 \<le> n" by simp_all
  define W where "W = map (\<lambda>p. (unat (fst p), unat (snd p))) (spawn_chunks_size_t (t + 1) n start e c)"
  define N where "N = spawn_chunks (t + 1) n (unat start) (unat e) (unat c)"
  have ih: "W = N"
    unfolding W_def N_def by (rule Suc.hyps(1) [OF j le])
  have tn: "t \<le> n"
    using lt by simp
  have "t * unat c \<le> n * unat c"
    using tn by (rule mult_le_mono1)
  moreover have "(t + 1) * unat c \<le> n * unat c"
    using le by (rule mult_le_mono1)
  ultimately have "t * unat c \<le> n * unat c" "(t + 1) * unat c \<le> n * unat c"
    by blast+
  then have b1: "unat start + t * unat c < 2 ^ 64" and b2: "unat start + (t + 1) * unat c < 2 ^ 64"
    using assms by linarith+
  have cs: "unat (start + word_of_nat t * c) = unat start + t * unat c"
    by (rule unat_chunk_bound [OF b1])
  have eq: "start + word_of_nat t * c + c = start + word_of_nat (t + 1) * c"
    by (simp add: algebra_simps)
  have ce: "unat (start + word_of_nat t * c + c) = unat start + (t + 1) * unat c"
    by (simp only: eq unat_chunk_bound [OF b2])
  have ce': "unat (min (start + word_of_nat t * c + c) e) = min (unat start + t * unat c + unat c) (unat e)"
    by (simp add: unat_min ce)
  have w: "map (\<lambda>p. (unat (fst p), unat (snd p))) (spawn_chunks_size_t t n start e c)
      = (if unat start + t * unat c < min (unat start + t * unat c + unat c) (unat e)
         then [(unat start + t * unat c, min (unat start + t * unat c + unat c) (unat e))] else []) @ W"
    using lt
    by (subst spawn_chunks_size_t.simps) (simp add: Let_def W_def word_less_nat_alt cs ce')
  have n: "spawn_chunks t n (unat start) (unat e) (unat c)
      = (if unat start + t * unat c < min (unat start + t * unat c + unat c) (unat e)
         then [(unat start + t * unat c, min (unat start + t * unat c + unat c) (unat e))] else []) @ N"
    using lt by (subst spawn_chunks.simps) (simp add: Let_def N_def)
  show ?case
    by (simp only: w n ih)
qed

lemma parallel_for_size_t_in_range:
  assumes "unat e + n < 2 ^ 64"
  shows "parallel_for_size_t n raises start e sched = parallel_for n raises (unat start) (unat e) sched"
proof (cases "e \<le> start")
  case True
  then show ?thesis
    by (simp add: parallel_for_size_t_def parallel_for_def word_le_nat_alt)
next
  case False
  then have se: "start \<le> e" and lt: "unat start < unat e"
    by (simp_all add: word_le_nat_alt)
  have range: "unat (e - start) = unat e - unat start"
    by (rule unat_sub [OF se])
  have big: "1000 < e - start \<longleftrightarrow> 1000 < unat e - unat start"
    by (simp add: word_less_nat_alt range)
  show ?thesis
  proof (cases "1000 < unat e - unat start \<and> 1 < n")
    case False
    then show ?thesis
      using lt big \<open>\<not> e \<le> start\<close>
      by (auto simp: parallel_for_size_t_def parallel_for_def Let_def)
  next
    case True
    then have n1: "1 < n" by simp
    have n64: "n < 2 ^ 64"
      using assms by simp
    have un: "unat (word_of_nat n :: 64 word) = n"
      using n64 by (simp add: unat_of_nat)
    have "unat (e - start) + unat (word_of_nat n :: 64 word) < 2 ^ 64"
      using assms lt by (simp add: range un)
    then have sum: "unat (e - start + word_of_nat n) = unat e - unat start + n"
      using unat_add_lem [of "e - start" "word_of_nat n :: 64 word"] by (simp add: range un)
    then have "e - start + word_of_nat n \<noteq> 0"
      using n1 by (auto simp: unat_eq_0 dest!: arg_cong [where f = unat])
    then have "unat (e - start + word_of_nat n - 1) = unat (e - start + word_of_nat n) - 1"
      by (rule unat_minus_one)
    then have num: "unat (e - start + word_of_nat n - 1) = unat e - unat start + n - 1"
      by (simp only: sum)
    define c where "c = (e - start + word_of_nat n - 1) div (word_of_nat n :: 64 word)"
    have uc: "unat c = (unat e - unat start + n - 1) div n"
      by (simp add: c_def unat_div num un)
    have "n * unat c \<le> unat e - unat start + n - 1"
      unfolding uc by (rule times_div_less_eq_dividend)
    then have bound: "unat start + n * unat c < 2 ^ 64"
      using assms lt by linarith
    have chunks: "map (\<lambda>p. (unat (fst p), unat (snd p))) (spawn_chunks_size_t 0 n start e c)
        = spawn_chunks 0 n (unat start) (unat e) ((unat e - unat start + n - 1) div n)"
      using spawn_chunks_size_t_in_range [OF bound, of 0 e] by (simp add: uc)
    have w: "parallel_for_size_t n raises start e sched =
        (case await_all raises sched
                (map (\<lambda>p. (unat (fst p), unat (snd p))) (spawn_chunks_size_t 0 n start e c)) of
           None \<Rightarrow> None | Some trace \<Rightarrow> Some (Inr (), trace))"
      using True big \<open>\<not> e \<le> start\<close> by (simp add: parallel_for_size_t_def Let_def c_def)
    have p: "parallel_for n raises (unat start) (unat e) sched =
        (case await_all raises sched
                (spawn_chunks 0 n (unat start) (unat e) ((unat e - unat start + n - 1) div n)) of
           None \<Rightarrow> None | Some trace \<Rightarrow> Some (Inr (), trace))"
      using True lt by (simp add: parallel_for_def Let_def)
    show ?thesis
      by (simp only: w p chunks)
  qed
qed

lemma parallel_for_size_t_exact:
  assumes "unat e + n < 2 ^ 64"
    and "parallel_for_size_t n (\<lambda>i. False) start e sched = Some (r, trace)"
  shows "r = Inr () \<and> mset trace = mset [unat start..<unat e]"
  using assms(2) parallel_for_exact [of n "unat start" "unat e" sched r trace]
  by (simp only: parallel_for_size_t_in_range [OF assms(1)])

lemma parallel_for_size_t_1002_first_fails:
  "parallel_for_size_t 2 ((=) 0) 0 1002 (0 # replicate 501 1) = Some (Inr (), 0 # [501..<1002])"
proof -
  have "unat (1002 :: 64 word) + 2 < 2 ^ 64"
    by simp
  then have "parallel_for_size_t 2 ((=) 0) 0 1002 (0 # replicate 501 1)
      = parallel_for 2 ((=) 0) (unat (0 :: 64 word)) (unat (1002 :: 64 word)) (0 # replicate 501 1)"
    by (rule parallel_for_size_t_in_range)
  also have "\<dots> = parallel_for 2 ((=) 0) 0 1002 (0 # replicate 501 1)"
    by simp
  finally show ?thesis
    by (simp only: parallel_for_1002_first_fails)
qed

subsection \<open>The 64-bit dynamic scheduler while the cursor does not wrap\<close>

lemma unfinished_update:
  "t < length cl \<Longrightarrow>
   sum_list (map unfinished (cl[t := x])) + unfinished (cl ! t)
     = sum_list (map unfinished cl) + unfinished x"
proof (induction cl arbitrary: t)
  case Nil
  then show ?case by simp
next
  case (Cons c cl)
  show ?case
  proof (cases t)
    case 0
    then show ?thesis by simp
  next
    case (Suc j)
    then have "j < length cl" using Cons.prems by simp
    from Cons.IH [OF this] show ?thesis
      using Suc by simp
  qed
qed

lemma unfinished_le_length:
  "sum_list (map unfinished cl) \<le> length cl"
proof (induction cl)
  case Nil
  show ?case by simp
next
  case (Cons c cl)
  have "unfinished c \<le> 1"
    by (cases c) simp_all
  then show ?case
    using Cons by simp
qed

lemma dynamic_step_cursor_bound:
  assumes step: "dynamic_step e c t s = Some s'"
    and len: "length (claimers s) = n"
    and bound: "next_chunk s + c * sum_list (map unfinished (claimers s)) \<le> e + c * (n + 1)"
  shows "next_chunk s' + c * sum_list (map unfinished (claimers s')) \<le> e + c * (n + 1)"
  using step
proof (cases rule: dynamic_step_elim)
  case claim_chunk
  define U where "U = sum_list (map unfinished (claimers s))"
  define U' where "U' = sum_list (map unfinished (claimers s'))"
  have "U' + unfinished (claimers s ! t) = U + unfinished (Visit [next_chunk s..<min (next_chunk s + c) e])"
    unfolding U_def U'_def using unfinished_update [OF claim_chunk(1)] claim_chunk(4) by simp
  then have u: "U' = U"
    using claim_chunk(2) by simp
  have "U \<le> n"
    unfolding U_def using unfinished_le_length [of "claimers s"] len by simp
  then have cu: "c * U \<le> c * n"
    by (rule mult_le_mono2)
  have nx: "next_chunk s' = next_chunk s + c"
    using claim_chunk(4) by simp
  have "next_chunk s + c + c * U \<le> e + c + c * n"
    using cu claim_chunk(3) by linarith
  then have "next_chunk s' + c * U' \<le> e + c * (n + 1)"
    by (simp only: nx u) (simp add: algebra_simps)
  then show ?thesis
    by (simp only: U'_def)
next
  case claim_exit
  define U where "U = sum_list (map unfinished (claimers s))"
  define U' where "U' = sum_list (map unfinished (claimers s'))"
  have "U' + unfinished (claimers s ! t) = U + unfinished Finished"
    unfolding U_def U'_def using unfinished_update [OF claim_exit(1)] claim_exit(4) by simp
  then have u: "U = U' + 1"
    using claim_exit(2) by simp
  have "next_chunk s' = next_chunk s + c"
    using claim_exit(4) by simp
  then have "next_chunk s' + c * U' = next_chunk s + c * U"
    using u by (simp add: algebra_simps)
  then show ?thesis
    using bound unfolding U_def U'_def by simp
next
  case chunk_end
  have "sum_list (map unfinished (claimers s')) + unfinished (claimers s ! t)
      = sum_list (map unfinished (claimers s)) + unfinished Claim"
    using unfinished_update [OF chunk_end(1)] chunk_end(3) by simp
  then have "sum_list (map unfinished (claimers s')) = sum_list (map unfinished (claimers s))"
    using chunk_end(2) by simp
  moreover have "next_chunk s' = next_chunk s"
    using chunk_end(3) by simp
  ultimately show ?thesis
    using bound by simp
next
  case (visit i rest)
  have "sum_list (map unfinished (claimers s')) + unfinished (claimers s ! t)
      = sum_list (map unfinished (claimers s)) + unfinished (Visit rest)"
    using unfinished_update [OF visit(1)] visit(3) by simp
  then have "sum_list (map unfinished (claimers s')) = sum_list (map unfinished (claimers s))"
    using visit(2) by simp
  moreover have "next_chunk s' = next_chunk s"
    using visit(3) by simp
  ultimately show ?thesis
    using bound by simp
qed

lemma dynamic_step_size_t_in_range:
  assumes "next_chunk s + c < 2 ^ 64"
  shows "dynamic_step_size_t e c t s = dynamic_step e c t s"
proof -
  have m: "(next_chunk s + c) mod 2 ^ 64 = next_chunk s + c"
    using assms by (rule mod_less)
  show ?thesis
    by (simp only: dynamic_step_size_t_def dynamic_step_def Let_def m)
qed

lemma run_dynamic_size_t_in_range:
  assumes "e + (n + 2) * c < 2 ^ 64"
  shows "length (claimers s) = n \<Longrightarrow>
    next_chunk s + c * sum_list (map unfinished (claimers s)) \<le> e + c * (n + 1) \<Longrightarrow>
    run_dynamic_size_t e c sched s = run_dynamic e c sched s"
proof (induction sched arbitrary: s)
  case Nil
  show ?case by simp
next
  case (Cons t sched)
  have "next_chunk s \<le> e + c * (n + 1)"
    using Cons.prems(2) by simp
  then have "next_chunk s + c \<le> e + (n + 2) * c"
    by (simp add: algebra_simps)
  then have "next_chunk s + c < 2 ^ 64"
    using assms by simp
  then have step: "dynamic_step_size_t e c t s = dynamic_step e c t s"
    by (rule dynamic_step_size_t_in_range)
  show ?case
  proof (cases "dynamic_step e c t s")
    case None
    then show ?thesis
      by (simp add: step)
  next
    case (Some s1)
    have "length (claimers s1) = n"
      using dynamic_step_length [OF Some] Cons.prems(1) by simp
    moreover have "next_chunk s1 + c * sum_list (map unfinished (claimers s1)) \<le> e + c * (n + 1)"
      by (rule dynamic_step_cursor_bound [OF Some Cons.prems])
    ultimately have "run_dynamic_size_t e c sched s1 = run_dynamic e c sched s1"
      by (rule Cons.IH)
    then show ?thesis
      by (simp add: step Some)
  qed
qed

lemma parallel_for_dynamic_size_t_in_range:
  assumes "e + (n + 2) * c < 2 ^ 64"
  shows "parallel_for_dynamic_size_t n start e c sched = parallel_for_dynamic n start e c sched"
proof (cases "e \<le> start")
  case True
  then show ?thesis
    by (simp add: parallel_for_dynamic_size_t_def parallel_for_dynamic_def)
next
  case False
  define s0 where "s0 = \<lparr>next_chunk = start, claimers = replicate n Claim, visited = []\<rparr>"
  have u: "sum_list (map unfinished (claimers s0)) = n"
    by (simp add: s0_def sum_list_replicate)
  have len: "length (claimers s0) = n"
    by (simp add: s0_def)
  have nx: "next_chunk s0 = start"
    by (simp add: s0_def)
  have "start + c * n \<le> e + c * (n + 1)"
    using False by simp
  then have b: "next_chunk s0 + c * sum_list (map unfinished (claimers s0)) \<le> e + c * (n + 1)"
    by (simp only: u nx)
  have "run_dynamic_size_t e c sched s0 = run_dynamic e c sched s0"
    by (rule run_dynamic_size_t_in_range [OF assms len b])
  then show ?thesis
    by (simp add: parallel_for_dynamic_size_t_def parallel_for_dynamic_def s0_def)
qed

lemma parallel_for_dynamic_size_t_exact:
  assumes "e + (n + 2) * c < 2 ^ 64"
    and "parallel_for_dynamic_size_t n start e c sched = Some trace"
  shows "mset trace = mset [start..<e]"
  using assms(2) parallel_for_dynamic_exact [of n start e c sched trace]
  by (simp only: parallel_for_dynamic_size_t_in_range [OF assms(1)])

lemma parallel_for_dynamic_size_t_zero_chunk:
  assumes "start < e" and "1 < n" and "e < 2 ^ 64"
  shows "parallel_for_dynamic_size_t n start e 0 sched = None"
proof -
  have "e + (n + 2) * 0 < 2 ^ 64"
    using assms(3) by simp
  then have "parallel_for_dynamic_size_t n start e 0 sched = parallel_for_dynamic n start e 0 sched"
    by (rule parallel_for_dynamic_size_t_in_range)
  then show ?thesis
    by (simp only: parallel_for_dynamic_zero_chunk [OF assms(1,2)])
qed

subsection \<open>The 64-bit static scheduler while no sum wraps\<close>

lemma static_chunks_size_t_in_range:
  assumes "0 < c" and "e + c \<le> 2 ^ 64"
  shows "static_chunks_size_t i e c futures = static_chunks i e c futures"
proof (induction "e - i" arbitrary: i futures rule: less_induct)
  case less
  show ?case
  proof (cases "i < e")
    case False
    then show ?thesis
      by (simp add: static_chunks_size_t.simps [of i] static_chunks.simps [of i])
  next
    case True
    then have "i + c < 2 ^ 64"
      using assms(2) by linarith
    then have m: "(i + c) mod 2 ^ 64 = i + c"
      by (rule mod_less)
    have "e - (i + c) < e - i"
      using True assms(1) by simp
    then have ih: "static_chunks_size_t (i + c) e c (futures @ [(i, min (i + c) e)])
        = static_chunks (i + c) e c (futures @ [(i, min (i + c) e)])"
      by (rule less.hyps)
    have "static_chunks_size_t i e c futures
        = static_chunks_size_t (i + c) e c (futures @ [(i, min (i + c) e)])"
      using True by (subst static_chunks_size_t.simps) (simp only: m if_True)
    also have "\<dots> = static_chunks (i + c) e c (futures @ [(i, min (i + c) e)])"
      by (rule ih)
    also have "\<dots> = static_chunks i e c futures"
      using True by (subst (2) static_chunks.simps) simp
    finally show ?thesis .
  qed
qed

lemma parallel_for_static_size_t_in_range:
  assumes "e + auto_chunk_size a start e c0 \<le> 2 ^ 64"
  shows "parallel_for_static_size_t a n raises start e c0 sched
     = parallel_for_static a n raises start e c0 sched"
proof (cases "c0 = 0 \<and> (a * 4) mod 2 ^ 32 = 0")
  case True
  then show ?thesis
    by (simp add: parallel_for_static_size_t_def parallel_for_static_def)
next
  case False
  have "0 < auto_chunk_size a start e c0"
    by (rule auto_chunk_size_positive)
  then have "static_chunks_size_t start e (auto_chunk_size a start e c0) []
      = static_chunks start e (auto_chunk_size a start e c0) []"
    using assms by (rule static_chunks_size_t_in_range)
  then show ?thesis
    by (simp add: parallel_for_static_size_t_def parallel_for_static_def Let_def)
qed

lemma parallel_for_static_size_t_exact:
  assumes "e + auto_chunk_size a start e c0 \<le> 2 ^ 64"
    and "\<not> (c0 = 0 \<and> (a * 4) mod 2 ^ 32 = 0)"
    and "parallel_for_static_size_t a n (\<lambda>i. False) start e c0 sched = Some (r, trace)"
  shows "r = Inr () \<and> mset trace = mset [start..<e]"
  using assms(2,3) parallel_for_static_exact [of a n start e c0 sched r trace]
  by (simp only: parallel_for_static_size_t_in_range [OF assms(1)]) blast

subsection \<open>The thread pool\<close>

lemma pool_step_elim:
  assumes "pool_step ev p = Some p'"
  obtains
    (exit) w where "ev = Wake w" "w < length (workers p)" "workers p ! w = Idle"
      "stop p" "tasks p = []" "p' = p\<lparr>workers := (workers p)[w := Exited]\<rparr>"
  | (pop) w task rest where "ev = Wake w" "w < length (workers p)" "workers p ! w = Idle"
      "tasks p = task # rest" "p' = p\<lparr>workers := (workers p)[w := Busy task], tasks := rest\<rparr>"
  | (return) w task where "ev = Return w" "w < length (workers p)" "workers p ! w = Busy task"
      "p' = p\<lparr>workers := (workers p)[w := Idle], completed := completed p @ [task]\<rparr>"
  | (enqueue) task where "ev = Enqueue task" "p' = p\<lparr>tasks := tasks p @ [task]\<rparr>"
  | (stop) "ev = Stop" "p' = p\<lparr>stop := True\<rparr>"
proof (cases ev)
  case (Wake w)
  show ?thesis
  proof (cases "tasks p")
    case Nil
    then show ?thesis
      using assms Wake exit [of w] by (auto simp: worker_wake_def split: if_splits)
  next
    case (Cons task rest)
    then show ?thesis
      using assms Wake pop [of w task rest] by (auto simp: worker_wake_def split: if_splits)
  qed
next
  case (Return w)
  then show ?thesis
    using assms return [of w]
    by (auto simp: worker_return_def split: if_splits worker.splits)
next
  case (Enqueue task)
  then show ?thesis
    using assms enqueue [of task] by (auto simp: enqueue_def)
next
  case Stop
  then show ?thesis
    using assms stop by (auto simp: signal_stop_def)
qed

lemma running_update_mset:
  assumes "w < length ws"
  shows "mset (concat (map running (ws[w := x]))) + mset (running (ws ! w))
       = mset (concat (map running ws)) + mset (running x)"
  using concat_update_mset [of w "map running ws" "running x"] assms
  by (simp add: map_update)

lemma effort_update:
  "w < length ws \<Longrightarrow>
   sum_list (map effort (ws[w := x])) + effort (ws ! w) = sum_list (map effort ws) + effort x"
proof (induction ws arbitrary: w)
  case Nil
  then show ?case by simp
next
  case (Cons v ws)
  show ?case
  proof (cases w)
    case 0
    then show ?thesis by simp
  next
    case (Suc j)
    then have "j < length ws" using Cons.prems by simp
    from Cons.IH [OF this] show ?thesis
      using Suc by simp
  qed
qed

lemma exited_after_update:
  "x \<noteq> Exited \<Longrightarrow> Exited \<in> set (ws[w := x]) \<Longrightarrow> Exited \<in> set ws"
  using set_update_subset_insert [of ws w x] by auto

text \<open>
  The invariant of draining, relative to a queue \<open>q\<close> and a multiset \<open>B\<close> of tasks
  already started: the first \<open>k\<close> tasks of \<open>q\<close> have been popped, and they and \<open>B\<close>
  are running or completed; what is left of \<open>q\<close> heads the queue; and once a worker
  has exited, all of \<open>q\<close> has been popped.
\<close>

lemma drain_step:
  assumes step: "pool_step ev p = Some p'"
    and inv: "\<exists>k later. k \<le> length q \<and> tasks p = drop k q @ later
        \<and> B + mset (take k q) \<subseteq># mset (completed p) + mset (busy p)
        \<and> (Exited \<in> set (workers p) \<longrightarrow> k = length q)"
  shows "\<exists>k later. k \<le> length q \<and> tasks p' = drop k q @ later
        \<and> B + mset (take k q) \<subseteq># mset (completed p') + mset (busy p')
        \<and> (Exited \<in> set (workers p') \<longrightarrow> k = length q)"
proof -
  from inv obtain k later where k: "k \<le> length q" and q: "tasks p = drop k q @ later"
    and sub: "B + mset (take k q) \<subseteq># mset (completed p) + mset (busy p)"
    and ex: "Exited \<in> set (workers p) \<longrightarrow> k = length q"
    by blast
  from step show ?thesis
  proof (cases rule: pool_step_elim)
    case (exit w)
    have "mset (busy p') = mset (busy p)"
      using running_update_mset [OF exit(2), of Exited] exit(3,6) by (simp add: busy_def)
    moreover have "k = length q"
      using q exit(5) k by simp
    ultimately have "k \<le> length q \<and> tasks p' = drop k q @ later
        \<and> B + mset (take k q) \<subseteq># mset (completed p') + mset (busy p')
        \<and> (Exited \<in> set (workers p') \<longrightarrow> k = length q)"
      using q sub exit(6) by simp
    then show ?thesis by blast
  next
    case (pop w task rest)
    have b: "mset (busy p') = mset (busy p) + {#task#}"
      using running_update_mset [OF pop(2), of "Busy task"] pop(3,5) by (simp add: busy_def)
    have ex': "Exited \<in> set (workers p') \<Longrightarrow> Exited \<in> set (workers p)"
      using exited_after_update [of "Busy task" "workers p" w] pop(5) by simp
    show ?thesis
    proof (cases "k < length q")
      case True
      then have d: "drop k q = q ! k # drop (Suc k) q"
        by (simp add: Cons_nth_drop_Suc)
      then have t: "task = q ! k" and r: "rest = drop (Suc k) q @ later"
        using q pop(4) by simp_all
      have tk: "take (Suc k) q = take k q @ [q ! k]"
        using True by (simp add: take_Suc_conv_app_nth)
      have "B + mset (take (Suc k) q) = (B + mset (take k q)) + {#task#}"
        by (simp add: tk t)
      also have "\<dots> \<subseteq># (mset (completed p) + mset (busy p)) + {#task#}"
        using sub by (simp only: mset_subset_eq_mono_add_right_cancel)
      finally have sub': "B + mset (take (Suc k) q) \<subseteq># mset (completed p') + mset (busy p')"
        using b pop(5) by (simp add: ac_simps)
      have "\<not> Exited \<in> set (workers p)"
        using ex True by auto
      then have "Exited \<in> set (workers p') \<longrightarrow> Suc k = length q"
        using ex' by blast
      then have "Suc k \<le> length q \<and> tasks p' = drop (Suc k) q @ later
        \<and> B + mset (take (Suc k) q) \<subseteq># mset (completed p') + mset (busy p')
        \<and> (Exited \<in> set (workers p') \<longrightarrow> Suc k = length q)"
        using True r pop(5) sub' by simp
      then show ?thesis by blast
    next
      case False
      then have kq: "k = length q" using k by simp
      then have l: "later = task # rest"
        using q pop(4) by simp
      have "B + mset (take k q) \<subseteq># mset (completed p) + mset (busy p) + {#task#}"
        using sub by (meson mset_subset_eq_add_left subset_mset.order_trans)
      then have sub': "B + mset (take k q) \<subseteq># mset (completed p') + mset (busy p')"
        using b pop(5) by (simp add: ac_simps)
      have "k \<le> length q \<and> tasks p' = drop k q @ rest
        \<and> B + mset (take k q) \<subseteq># mset (completed p') + mset (busy p')
        \<and> (Exited \<in> set (workers p') \<longrightarrow> k = length q)"
        using kq pop(5) sub' by simp
      then show ?thesis by blast
    qed
  next
    case (return w task)
    have "mset (busy p') + {#task#} = mset (busy p)"
      using running_update_mset [OF return(2), of Idle] return(3,4) by (simp add: busy_def)
    then have same: "mset (completed p') + mset (busy p') = mset (completed p) + mset (busy p)"
      using return(4) by (simp add: ac_simps)
    have ex': "Exited \<in> set (workers p') \<Longrightarrow> Exited \<in> set (workers p)"
      using exited_after_update [of Idle "workers p" w] return(4) by simp
    have "k \<le> length q \<and> tasks p' = drop k q @ later
        \<and> B + mset (take k q) \<subseteq># mset (completed p') + mset (busy p')
        \<and> (Exited \<in> set (workers p') \<longrightarrow> k = length q)"
      using k q sub ex ex' return(4) unfolding same by auto
    then show ?thesis by blast
  next
    case (enqueue task)
    have "k \<le> length q \<and> tasks p' = drop k q @ (later @ [task])
        \<and> B + mset (take k q) \<subseteq># mset (completed p') + mset (busy p')
        \<and> (Exited \<in> set (workers p') \<longrightarrow> k = length q)"
      using k q sub ex enqueue(2) by (simp add: busy_def)
    then show ?thesis by blast
  next
    case stop
    have "k \<le> length q \<and> tasks p' = drop k q @ later
        \<and> B + mset (take k q) \<subseteq># mset (completed p') + mset (busy p')
        \<and> (Exited \<in> set (workers p') \<longrightarrow> k = length q)"
      using k q sub ex stop(2) by (simp add: busy_def)
    then show ?thesis by blast
  qed
qed

lemma pool_step_workers_length:
  assumes "pool_step ev p = Some p'"
  shows "length (workers p') = length (workers p)"
  using assms by (cases rule: pool_step_elim) simp_all

lemma drain_run:
  "run_pool evs p = Some p' \<Longrightarrow>
   (\<exists>k later. k \<le> length q \<and> tasks p = drop k q @ later
        \<and> B + mset (take k q) \<subseteq># mset (completed p) + mset (busy p)
        \<and> (Exited \<in> set (workers p) \<longrightarrow> k = length q)) \<Longrightarrow>
   (\<exists>k later. k \<le> length q \<and> tasks p' = drop k q @ later
        \<and> B + mset (take k q) \<subseteq># mset (completed p') + mset (busy p')
        \<and> (Exited \<in> set (workers p') \<longrightarrow> k = length q))
   \<and> length (workers p') = length (workers p)"
proof (induction evs arbitrary: p)
  case Nil
  then show ?case by simp
next
  case (Cons ev evs)
  then obtain p1 where p1: "pool_step ev p = Some p1" "run_pool evs p1 = Some p'"
    by (auto split: option.splits)
  from Cons.IH [OF p1(2) drain_step [OF p1(1) Cons.prems(2)]]
    pool_step_workers_length [OF p1(1)]
  show ?case by simp
qed

lemma joined_iff: "joined p \<longleftrightarrow> set (workers p) \<subseteq> {Exited}"
  by (auto simp: joined_def filter_empty_conv)

lemma joined_not_busy:
  assumes "joined p"
  shows "busy p = []"
proof -
  have "\<And>w. w \<in> set (workers p) \<Longrightarrow> running w = []"
    using assms by (auto simp: joined_iff)
  then show ?thesis by (simp add: busy_def)
qed

lemma shutdown_drains:
  assumes run: "run_pool evs p = Some p'"
    and fresh: "Exited \<notin> set (workers p)" and some: "workers p \<noteq> []"
    and j: "joined p'"
  shows "mset (completed p) + mset (busy p) + mset (tasks p) \<subseteq># mset (completed p')"
proof -
  have "\<exists>k later. k \<le> length (tasks p) \<and> tasks p = drop k (tasks p) @ later
        \<and> (mset (completed p) + mset (busy p)) + mset (take k (tasks p))
             \<subseteq># mset (completed p) + mset (busy p)
        \<and> (Exited \<in> set (workers p) \<longrightarrow> k = length (tasks p))"
    using fresh by (intro exI [of _ 0] exI [of _ "[]"]) simp
  from drain_run [OF run this] obtain k later where
    "tasks p' = drop k (tasks p) @ later"
    and sub: "(mset (completed p) + mset (busy p)) + mset (take k (tasks p))
             \<subseteq># mset (completed p') + mset (busy p')"
    and ex: "Exited \<in> set (workers p') \<longrightarrow> k = length (tasks p)"
    and len: "length (workers p') = length (workers p)"
    by blast
  have "workers p' \<noteq> []" using len some by auto
  then obtain w where "w \<in> set (workers p')" by (cases "workers p'") auto
  then have "Exited \<in> set (workers p')"
    using j by (auto simp: joined_iff)
  then have "k = length (tasks p)" using ex by simp
  then show ?thesis
    using sub joined_not_busy [OF j] by simp
qed

lemma exit_needs_stop_and_empty_queue:
  assumes "pool_step (Wake w) p = Some p'" and "workers p' ! w = Exited"
  shows "stop p \<and> tasks p = [] \<and> workers p ! w = Idle"
  using assms(1)
proof (cases rule: pool_step_elim)
  case (exit w')
  then show ?thesis by simp
next
  case (pop w' task rest)
  then show ?thesis using assms(2) by simp
qed simp_all

lemma worker_step_decreases:
  assumes "pool_step ev p = Some p'" and "worker_event ev"
  shows "Suc (pool_measure p') = pool_measure p"
  using assms(1)
proof (cases rule: pool_step_elim)
  case (exit w)
  have "sum_list (map effort ((workers p)[w := Exited])) + 1 = sum_list (map effort (workers p))"
    using effort_update [OF exit(2), of Exited] exit(3) by simp
  then show ?thesis using exit(6) by (simp add: pool_measure_def)
next
  case (pop w task rest)
  have "sum_list (map effort ((workers p)[w := Busy task])) + 1
      = sum_list (map effort (workers p)) + 2"
    using effort_update [OF pop(2), of "Busy task"] pop(3) by simp
  then show ?thesis using pop(4,5) by (simp add: pool_measure_def)
next
  case (return w task)
  have "sum_list (map effort ((workers p)[w := Idle])) + 2
      = sum_list (map effort (workers p)) + 1"
    using effort_update [OF return(2), of Idle] return(3) by simp
  then show ?thesis using return(4) by (simp add: pool_measure_def)
next
  case (enqueue task)
  then show ?thesis using assms(2) by simp
next
  case stop
  then show ?thesis using assms(2) by simp
qed

lemma worker_step_keeps_stop:
  assumes "pool_step ev p = Some p'" and "stop p"
  shows "stop p'"
  using assms by (cases rule: pool_step_elim) simp_all

lemma worker_run_length:
  "run_pool evs p = Some p' \<Longrightarrow> list_all worker_event evs \<Longrightarrow>
   length evs + pool_measure p' = pool_measure p"
proof (induction evs arbitrary: p)
  case Nil
  then show ?case by simp
next
  case (Cons ev evs)
  then obtain p1 where p1: "pool_step ev p = Some p1" "run_pool evs p1 = Some p'"
    by (auto split: option.splits)
  from Cons.IH [OF p1(2)] worker_step_decreases [OF p1(1)] Cons.prems(2) show ?case
    by simp
qed

lemma stopped_worker_enabled:
  assumes "stop p" and "\<not> joined p"
  shows "\<exists>ev p'. worker_event ev \<and> pool_step ev p = Some p'"
proof -
  from assms(2) obtain v where "v \<in> set (workers p)" "v \<noteq> Exited"
    by (auto simp: joined_iff)
  then obtain w where w: "w < length (workers p)" "workers p ! w \<noteq> Exited"
    by (auto simp: in_set_conv_nth)
  show ?thesis
  proof (cases "workers p ! w")
    case Idle
    then have "\<exists>p'. pool_step (Wake w) p = Some p'"
      using w(1) assms(1) by (simp add: worker_wake_def)
    then show ?thesis by (metis worker_event.simps(1))
  next
    case (Busy task)
    then have "\<exists>p'. pool_step (Return w) p = Some p'"
      using w(1) by (simp add: worker_return_def)
    then show ?thesis by (metis worker_event.simps(2))
  next
    case Exited
    then show ?thesis using w(2) by simp
  qed
qed

lemma stopped_pool_joins:
  "stop p \<Longrightarrow>
   \<exists>evs p'. list_all worker_event evs \<and> run_pool evs p = Some p' \<and> joined p'"
proof (induction "pool_measure p" arbitrary: p rule: less_induct)
  case less
  show ?case
  proof (cases "joined p")
    case True
    then have "list_all worker_event [] \<and> run_pool [] p = Some p \<and> joined p"
      by simp
    then show ?thesis by blast
  next
    case False
    from stopped_worker_enabled [OF less.prems False] obtain ev p1 where
      p1: "worker_event ev" "pool_step ev p = Some p1"
      by blast
    have "pool_measure p1 < pool_measure p"
      using worker_step_decreases [OF p1(2,1)] by simp
    from less.hyps [OF this worker_step_keeps_stop [OF p1(2) less.prems]] obtain evs p' where
      "list_all worker_event evs" "run_pool evs p1 = Some p'" "joined p'"
      by blast
    then have "list_all worker_event (ev # evs) \<and> run_pool (ev # evs) p = Some p' \<and> joined p'"
      using p1 by simp
    then show ?thesis by blast
  qed
qed

lemma run_pool_append:
  "run_pool (xs @ ys) p =
     (case run_pool xs p of None \<Rightarrow> None | Some p' \<Rightarrow> run_pool ys p')"
  by (induction xs arbitrary: p) (simp_all split: option.splits)

lemma pool_step_accounts:
  assumes "pool_step ev p = Some p'"
  shows "mset (completed p') + mset (busy p') + mset (tasks p')
       = mset (completed p) + mset (busy p) + mset (tasks p) + mset (submitted [ev])"
  using assms
proof (cases rule: pool_step_elim)
  case (exit w)
  have "mset (busy p') = mset (busy p)"
    using running_update_mset [OF exit(2), of Exited] exit(3,6) by (simp add: busy_def)
  then show ?thesis using exit(1,6) by simp
next
  case (pop w task rest)
  have "mset (busy p') = mset (busy p) + {#task#}"
    using running_update_mset [OF pop(2), of "Busy task"] pop(3,5) by (simp add: busy_def)
  then show ?thesis using pop(1,4,5) by simp
next
  case (return w task)
  have "mset (busy p') + {#task#} = mset (busy p)"
    using running_update_mset [OF return(2), of Idle] return(3,4) by (simp add: busy_def)
  then show ?thesis using return(1,4) by (simp add: ac_simps)
next
  case (enqueue task)
  then show ?thesis by (simp add: busy_def)
next
  case stop
  then show ?thesis by (simp add: busy_def)
qed

lemma submitted_Cons: "mset (submitted (ev # evs)) = mset (submitted [ev]) + mset (submitted evs)"
  by (cases ev) simp_all

lemma run_pool_accounts:
  "run_pool evs p = Some p' \<Longrightarrow>
   mset (completed p') + mset (busy p') + mset (tasks p')
     = mset (completed p) + mset (busy p) + mset (tasks p) + mset (submitted evs)"
proof (induction evs arbitrary: p)
  case Nil
  then show ?case by simp
next
  case (Cons ev evs)
  then obtain p1 where p1: "pool_step ev p = Some p1" "run_pool evs p1 = Some p'"
    by (auto split: option.splits)
  have "mset (completed p') + mset (busy p') + mset (tasks p')
      = (mset (completed p1) + mset (busy p1) + mset (tasks p1)) + mset (submitted evs)"
    by (rule Cons.IH [OF p1(2)])
  also have "\<dots> = (mset (completed p) + mset (busy p) + mset (tasks p) + mset (submitted [ev]))
      + mset (submitted evs)"
    by (simp only: pool_step_accounts [OF p1(1)])
  also have "\<dots> = mset (completed p) + mset (busy p) + mset (tasks p) + mset (submitted (ev # evs))"
    by (simp only: submitted_Cons [of ev evs] add.assoc)
  finally show ?case .
qed

lemma no_exit_before_stop:
  "run_pool evs p = Some p' \<Longrightarrow> Stop \<notin> set evs \<Longrightarrow> \<not> stop p \<Longrightarrow>
   Exited \<notin> set (workers p) \<Longrightarrow> \<not> stop p' \<and> Exited \<notin> set (workers p')"
proof (induction evs arbitrary: p)
  case Nil
  then show ?case by simp
next
  case (Cons ev evs)
  then obtain p1 where p1: "pool_step ev p = Some p1" "run_pool evs p1 = Some p'"
    by (auto split: option.splits)
  from p1(1) have "\<not> stop p1 \<and> Exited \<notin> set (workers p1)"
  proof (cases rule: pool_step_elim)
    case (exit w)
    then show ?thesis using Cons.prems(3) by simp
  next
    case (pop w task rest)
    then show ?thesis
      using Cons.prems(3,4) exited_after_update [of "Busy task" "workers p" w] by auto
  next
    case (return w task)
    then show ?thesis
      using Cons.prems(3,4) exited_after_update [of Idle "workers p" w] by auto
  next
    case (enqueue task)
    then show ?thesis using Cons.prems(3,4) by simp
  next
    case stop
    then show ?thesis using Cons.prems(2) by simp
  qed
  with Cons.IH [OF p1(2)] Cons.prems(2) show ?case
    by simp
qed

lemma ThreadPool_fresh:
  "workers (ThreadPool n hw) \<noteq> []"
  "Exited \<notin> set (workers (ThreadPool n hw))"
  "\<not> stop (ThreadPool n hw)"
  "tasks (ThreadPool n hw) = []"
  "completed (ThreadPool n hw) = []"
  "busy (ThreadPool n hw) = []"
proof -
  have "concat (map running (replicate m Idle)) = []" for m :: nat
    by (induction m) simp_all
  then show "busy (ThreadPool n hw) = []"
    by (simp add: ThreadPool_def Let_def busy_def)
qed (simp_all add: ThreadPool_def Let_def)

lemma queued_before_shutdown_completed:
  assumes run: "run_pool (pre @ Stop # post) (ThreadPool n hw) = Some p'"
    and pre: "Stop \<notin> set pre" and j: "joined p'"
  shows "mset (submitted pre) \<subseteq># mset (completed p')"
proof -
  define p0 :: "'a thread_pool" where "p0 = ThreadPool n hw"
  from run obtain p1 where p1: "run_pool pre p0 = Some p1" "run_pool (Stop # post) p1 = Some p'"
    by (auto simp: run_pool_append p0_def split: option.splits)
  have init: "workers p0 \<noteq> []" "Exited \<notin> set (workers p0)" "\<not> stop p0" "tasks p0 = []"
      "completed p0 = []" "busy p0 = []"
    by (simp_all add: p0_def ThreadPool_fresh)
  have fresh: "Exited \<notin> set (workers p1)"
    using no_exit_before_stop [OF p1(1) pre init(3,2)] by simp
  have "length (workers p1) = length (workers p0)"
    using drain_run [OF p1(1), of "[]" "{#}"] by simp
  then have some: "workers p1 \<noteq> []"
    using init(1) by auto
  have acc: "mset (completed p1) + mset (busy p1) + mset (tasks p1) = mset (submitted pre)"
    using run_pool_accounts [OF p1(1)] init by simp
  from shutdown_drains [OF p1(2) fresh some j] show ?thesis
    by (simp only: acc)
qed

subsection \<open>Synchronisation primitives\<close>

lemma unat_scast:
  fixes t :: "32 word"
  shows "unat (scast t :: 64 word) = nat (sint t mod 2 ^ 64)"
proof -
  have e: "(scast t :: 64 word) = word_of_int (sint t)"
    by (rule scast_eq)
  have "unat (scast t :: 64 word) = unat (word_of_int (sint t) :: 64 word)"
    by (rule arg_cong [OF e])
  also have "\<dots> = nat (sint t mod 2 ^ 64)"
    by (simp only: unat_eq_nat_uint uint_word_of_int take_bit_eq_mod len_bit0 len_num1) simp
  finally show ?thesis .
qed

lemma unat_scast_nonneg:
  fixes t :: "32 word"
  assumes "0 \<le> sint t"
  shows "unat (scast t :: 64 word) = nat (sint t)"
proof -
  have lt: "sint t < 2 ^ 31"
    using sint_lt [of t] by simp
  have "nat (sint t mod 2 ^ 64) = nat (sint t)"
    using assms lt by simp
  then show ?thesis
    by (simp only: unat_scast)
qed

lemma unat_scast_neg:
  fixes t :: "32 word"
  assumes "sint t < 0"
  shows "unat (scast t :: 64 word) = nat (2 ^ 64 + sint t)"
proof -
  have ge: "- (2 ^ 31) \<le> sint t"
    using sint_ge [of t] by simp
  have "sint t mod 2 ^ 64 = (sint t + 2 ^ 64) mod 2 ^ 64"
    by simp
  also have "\<dots> = sint t + 2 ^ 64"
    using assms ge by (intro mod_pos_pos_trivial) simp_all
  finally have "nat (sint t mod 2 ^ 64) = nat (2 ^ 64 + sint t)"
    by (simp add: add.commute)
  then show ?thesis
    by (simp only: unat_scast)
qed

lemma local_index_unat:
  assumes "sz \<noteq> 0"
  shows "\<exists>k. local_index t sz = Some k \<and> unat k < unat sz \<and> unat k = unat (scast t :: 64 word) mod unat sz"
proof -
  have pos: "0 < unat sz"
    using assms by (simp add: unat_gt_0)
  have "unat (scast t mod sz) = unat (scast t :: 64 word) mod unat sz"
    by (rule unat_mod_distrib)
  then show ?thesis
    using assms pos by (simp add: local_index_def)
qed

lemma execute_calls_set:
  "execute_calls fns (True, s) = (True, s)"
  by (induction fns) (simp_all add: execute_def compare_exchange_strong_def)






section \<open>The claims\<close>

text \<open>
  C1. Every index of \<open>[start, end)\<close> is to be visited exactly once, for every start and
  end and every policy. The code misses that in four places, shown here with
  \<^verbatim>\<open>IndexType = size_t\<close>. \<^verbatim>\<open>parallel_for\<close> clamps the end of a chunk with
  \<^verbatim>\<open>std::min(chunk_start + chunk_size, end)\<close>, and the sum wraps around near the top
  of the index type: on a pool of two workers, over the 1001 indices of
  \<open>[2^64 - 1002, 2^64 - 1)\<close> the chunk size is 501, the second chunk starts at
  \<open>2^64 - 501\<close> and its end is computed as \<open>min(0, end) = 0\<close>, so it is taken for
  empty and never enqueued; the call returns normally after 501 invocations and the last
  500 indices are never visited. (The sequential path of the same function, taken on a
  pool of one worker, visits all 1001 indices.) The cursor of \<^verbatim>\<open>parallel_for_dynamic\<close>
  wraps in the same way: with the default chunk size 1 over \<open>[2^64 - 3, 2^64 - 1)\<close> on
  two workers, the task that reads the cursor at \<open>2^64 - 1\<close> leaves its loop and the
  cursor wraps to 0, whereupon the other task claims \<open>[0, 1)\<close> and invokes the body on
  index 0, outside the range. \<^verbatim>\<open>parallel_for_dynamic\<close> with a chunk size of 0 over
  \<open>[0, 2)\<close> on two workers has no execution that returns. \<^verbatim>\<open>parallel_for_static\<close>
  with the default chunk size, called after \<^verbatim>\<open>set_num_threads(0)\<close>, divides by zero
  before any invocation.
\<close>

theorem parallel_for_drops_chunk_at_top_of_range:
  "spawn_chunks_size_t 0 2 18446744073709550614 18446744073709551615 501
     = [(18446744073709550614, 18446744073709551115)]
   \<and> parallel_for_size_t 2 (\<lambda>i. False) 18446744073709550614 18446744073709551615 (replicate 501 0)
     = Some (Inr (), [18446744073709550614..<18446744073709551115])
   \<and> parallel_for_size_t 1 (\<lambda>i. False) 18446744073709550614 18446744073709551615 sched
     = Some (Inr (), [18446744073709550614..<18446744073709551615])
   \<and> unat (18446744073709551615 - 18446744073709550614 :: 64 word) = 1001
   \<and> length [18446744073709550614..<18446744073709551115] = 501
   \<and> count_list [18446744073709550614..<18446744073709551115] 18446744073709551115 = 0
   \<and> (18446744073709551115 + 501 :: 64 word) = 0
   \<and> run_dynamic_size_t 18446744073709551615 1 [0, 0, 1, 1, 0, 0, 1, 1, 1]
         \<lparr>next_chunk = 18446744073709551613, claimers = [Claim, Claim], visited = []\<rparr>
       = Some \<lparr>next_chunk = 1, claimers = [Finished, Visit []],
               visited = [18446744073709551613, 18446744073709551614, 0]\<rparr>
   \<and> parallel_for_dynamic_size_t 2 0 2 0 sched = None
   \<and> parallel_for_static_size_t 0 2 (\<lambda>i. False) 0 5 0 sched = Some (Inl DivisionByZero, [])"
proof -
  have l: "length [18446744073709550614..<18446744073709551115] = 501"
    by (simp del: upt_rec_numeral)
  have c: "count_list [18446744073709550614..<18446744073709551115] 18446744073709551115 = 0"
    by (simp add: count_list_upt del: upt_rec_numeral)
  have r: "unat (18446744073709551615 - 18446744073709550614 :: 64 word) = 1001"
    by simp
  have w: "(18446744073709551115 + 501 :: 64 word) = 0"
    by simp
  have q: "parallel_for_size_t 1 (\<lambda>i. False) 18446744073709550614 18446744073709551615 sched
     = Some (Inr (), [18446744073709550614..<18446744073709551615])"
    by (simp add: parallel_for_size_t_def never_raises_sequential del: upt_rec_numeral)
  have d: "parallel_for_dynamic_size_t 2 0 2 0 sched = None"
    by (rule parallel_for_dynamic_size_t_zero_chunk) simp_all
  have s: "parallel_for_static_size_t 0 2 (\<lambda>i. False) 0 5 0 sched = Some (Inl DivisionByZero, [])"
    by (simp add: parallel_for_static_size_t_def)
  from one_chunk_at_top_of_range parallel_for_size_t_top_of_range q r l c w
    dynamic_cursor_wraps_at_top_of_range d s
  show ?thesis
    by (simp only: simp_thms)
qed

text \<open>
  C2. A submission after the stop flag has been signalled is to fail with PoolClosed.
  \<^verbatim>\<open>ThreadPool::enqueue\<close> of parallel\_framework.h does. \<^verbatim>\<open>ThreadPool::enqueue\<close> of
  diskann\_parallel.h never looks at the flag: on a pool of one worker that has been
  stopped and whose worker has returned, the task is accepted into the queue, and no
  step of any worker is possible any more, so the task is never run and its future never
  becomes ready.
\<close>

theorem enqueue_after_stop_is_accepted:
  "run_pool [Stop, Wake 0] (ThreadPool 1 0)
     = Some \<lparr>workers = [Exited], tasks = [], stop = True, completed = [] :: nat list\<rparr>
   \<and> pool_step (Enqueue 7) \<lparr>workers = [Exited], tasks = [], stop = True, completed = [] :: nat list\<rparr>
     = Some \<lparr>workers = [Exited], tasks = [7], stop = True, completed = []\<rparr>
   \<and> pool_step (Wake 0) \<lparr>workers = [Exited], tasks = [7 :: nat], stop = True, completed = []\<rparr> = None
   \<and> pool_step (Return 0) \<lparr>workers = [Exited], tasks = [7 :: nat], stop = True, completed = []\<rparr> = None
   \<and> fw_enqueue 7 \<lparr>workers = [Exited], tasks = [], stop = True, completed = [] :: nat list\<rparr>
     = Inl PoolClosed"
  by (simp add: ThreadPool_def signal_stop_def worker_wake_def worker_return_def enqueue_def
      fw_enqueue_def)

text \<open>
  C3. An exception raised in a task is captured in the task's future and does not stop
  the other tasks; but a caller of \<^verbatim>\<open>parallel_for\<close> whose body raises on some index
  is to receive the propagated error, not a normal return over a truncated range. On
  the forked path the code awaits the futures with \<^verbatim>\<open>wait()\<close>, which never rethrows:
  on a pool of two workers, over \<open>[0, 1002)\<close>, with a body that throws on index 0, the
  call returns normally after 502 invocations, and the indices 1 to 500 are never
  visited. The sequential path of the same function, taken over \<open>[0, 5)\<close>, does
  propagate the exception.
\<close>

theorem parallel_for_swallows_task_failure:
  "parallel_for 2 ((=) 0) 0 1002 (0 # replicate 501 1) = Some (Inr (), 0 # [501..<1002])
   \<and> length (0 # [501..<1002]) = 502
   \<and> count_list (0 # [501..<1002]) 1 = 0
   \<and> parallel_for 2 ((=) 0) 0 5 [] = Some (Inl (TaskFailure 0), [0])"
proof -
  have "count_list [501..<1002] 1 = 0"
    by (simp add: count_list_upt del: upt_rec_numeral)
  then have c: "count_list (0 # [501..<1002]) 1 = 0"
    by (simp del: upt_rec_numeral)
  have l: "length (0 # [501..<1002]) = 502"
    by (simp del: upt_rec_numeral)
  have s: "parallel_for 2 ((=) 0) 0 5 [] = Some (Inl (TaskFailure 0), [0])"
    by (simp add: parallel_for_def upt_conv_Cons)
  from parallel_for_1002_first_fails l c s show ?thesis
    by (simp only: simp_thms)
qed

text \<open>
  C4. The claim as stated fails for parallel\_framework.h. Two threads, the range \<open>[0, 4)\<close>,
  list append as the (associative) reduce operation and the singleton list as the
  transform: the partitions are \<open>[0, 2)\<close> and \<open>[2, 4)\<close>, and their in-order fold is
  \<open>[0, 1, 2, 3]\<close>. When the calling thread holds runtime id 0 and the two workers get
  the ids 1 and 2, partition 0 lands in slot 1 and partition 1 in slot 0, and the result
  is \<open>[2, 3, 0, 1]\<close>; with worker ids 0 and 1 it is \<open>[0, 1, 2, 3]\<close>. The combine
  order is the slot order, not the partition order, and the value is not repeatable.
\<close>

theorem fw_parallel_reduce_slot_order_counterexample:
  "fw_parallel_reduce 2 0 Suc 0 4 [] (replicate 1) (@) 2 = Some [2, 3, 0, 1]
   \<and> fw_parallel_reduce 2 0 id 0 4 [] (replicate 1) (@) 2 = Some [0, 1, 2, 3]
   \<and> foldl (@) [] (map (local_fold (@) (replicate 1) []) (spawn_partitions 0 2 2 0 0)) = [0, 1, 2, 3]"
  by code_simp

text \<open>
  C4, amended. The indices are \<^verbatim>\<open>int\<close>s, and so is the length \<^verbatim>\<open>end - start\<close> of
  the range. For every identity, transform and reduce operation, \<^verbatim>\<open>parallel_reduce\<close> of
  parallel\_utils.h returns the identity over an empty range, the fold of the whole
  range on its sequential path (fewer indices than threads, or one thread) and, on the
  path that splits the range, the fold with \<^verbatim>\<open>reduce_op\<close>, from \<^verbatim>\<open>identity\<close> and in
  ascending partition index, of the partition-local folds, the partitions tiling the
  range from left to right. So does the thread-pool \<^verbatim>\<open>parallel_reduce\<close> of
  diskann\_parallel.h: on its forked path (more than 1000 elements, more than one
  worker) it returns the fold with \<^verbatim>\<open>op\<close>, from \<^verbatim>\<open>init\<close> and in ascending chunk
  index, of the folds of the chunks, which concatenate to the range, and otherwise the
  fold of the whole range. Hence, when \<^verbatim>\<open>reduce_op\<close> is associative with
  \<^verbatim>\<open>identity\<close> as its neutral element, both return the sequential in-order fold, for
  every thread count. \<^verbatim>\<open>parallel_reduce\<close> of parallel\_framework.h accumulates into one
  slot per runtime thread id modulo the thread count and combines the slots by ascending
  slot index: it returns the sequential fold when \<^verbatim>\<open>reduce_op\<close> is commutative as well,
  the thread count is positive (and below \<open>2^30\<close>) and no two workers share a slot.
\<close>

theorem parallel_reduce_combine_order:
  assumes "monoid_op f z" and "is_int start" and "is_int e" and "is_int (e - start)"
    and "m = (if nt \<le> 0 then get_num_threads hw else nt)"
  shows "parallel_reduce hw start e z h g nt =
            Some (if e - start \<le> 0 then z
                  else if e - start < m \<or> m = 1 then local_fold h g z (start, e)
                  else foldl h z (map (local_fold h g z) (partitions start m (e - start))))
    \<and> (start < e \<longrightarrow> chain (partitions start m (e - start)) start e)
    \<and> parallel_reduce hw start e z f g nt = Some (for_loop start e (\<lambda>i r. f r (g i)) z)
    \<and> parallel_reduce_iter n xs z h =
          (if 1000 < length xs \<and> 1 < n
           then foldl h z (map (foldl h z) (iterator_chunks n xs))
           else foldl h z xs)
    \<and> (0 < n \<longrightarrow> concat (iterator_chunks n xs) = xs)
    \<and> parallel_reduce_iter n xs z f = foldl f z xs
    \<and> (commutative_op f \<and> 0 < resolve_threads global nt \<and> resolve_threads global nt < 2 ^ 30
         \<and> distinct (map (\<lambda>t. int (worker_tid t) mod resolve_threads global nt)
               [0..<nat (resolve_threads global nt)])
        \<longrightarrow> fw_parallel_reduce global caller_tid worker_tid start e z g f nt
              = Some (for_loop start e (\<lambda>i r. f r (g i)) z))"
proof -
  have assoc: "\<And>a b c. f (f a b) c = f a (f b c)"
    and idl: "\<And>a. f z a = a" and idr: "\<And>a. f a z = a"
    using assms(1) by (simp_all add: monoid_op_def)
  have mpos: "0 < m"
    using assms(5) by (simp add: get_num_threads_def)
  have one: "parallel_reduce hw start e z h g nt =
            Some (if e - start \<le> 0 then z
                  else if e - start < m \<or> m = 1 then local_fold h g z (start, e)
                  else foldl h z (map (local_fold h g z) (partitions start m (e - start))))"
  proof (cases "e - start \<le> 0")
    case True
    then show ?thesis
      using assms(4) by (simp add: parallel_reduce_def)
  next
    case False
    show ?thesis
    proof (cases "e - start < m \<or> m = 1")
      case True
      then show ?thesis
        using False assms(4) by (simp add: parallel_reduce_def assms(5) [symmetric] Let_def)
    next
      case par: False
      show ?thesis
        using parallel_reduce_in_order [OF False assms(5) par assms(4), where z = z and f = h and g = g] False par
        by simp
    qed
  qed
  have tile: "start < e \<longrightarrow> chain (partitions start m (e - start)) start e"
    using partitions_chain [OF mpos] by blast
  have two: "parallel_reduce hw start e z f g nt = Some (for_loop start e (\<lambda>i r. f r (g i)) z)"
    by (rule parallel_reduce_monoid [OF assoc idl idr assms(4)])
  have three: "parallel_reduce_iter n xs z h =
          (if 1000 < length xs \<and> 1 < n
           then foldl h z (map (foldl h z) (iterator_chunks n xs))
           else foldl h z xs)"
    using parallel_reduce_iter_in_order [of xs n z h]
    by (auto simp: parallel_reduce_iter_def Let_def)
  have cover: "0 < n \<longrightarrow> concat (iterator_chunks n xs) = xs"
    using concat_iterator_chunks [of n xs] by blast
  have three': "parallel_reduce_iter n xs z f = foldl f z xs"
    by (rule parallel_reduce_iter_monoid [OF assoc idl idr])
  have four: "commutative_op f \<and> 0 < resolve_threads global nt \<and> resolve_threads global nt < 2 ^ 30
         \<and> distinct (map (\<lambda>t. int (worker_tid t) mod resolve_threads global nt)
               [0..<nat (resolve_threads global nt)])
        \<longrightarrow> fw_parallel_reduce global caller_tid worker_tid start e z g f nt
              = Some (for_loop start e (\<lambda>i r. f r (g i)) z)"
  proof
    assume h: "commutative_op f \<and> 0 < resolve_threads global nt \<and> resolve_threads global nt < 2 ^ 30
         \<and> distinct (map (\<lambda>t. int (worker_tid t) mod resolve_threads global nt)
               [0..<nat (resolve_threads global nt)])"
    then have comm: "\<And>a b. f a b = f b a"
      by (simp add: commutative_op_def)
    have pos: "0 < global \<or> 0 < nt"
      using h by (auto simp: resolve_threads_def split: if_splits)
    have d: "distinct (map (\<lambda>t. int (worker_tid t) mod (if nt \<le> 0 then int global else nt))
                  [0..<nat (if nt \<le> 0 then int global else nt)])"
      using h by (simp add: resolve_threads_def)
    have t: "is_int ((if nt \<le> 0 then int global else nt) * 2)"
      using h by (simp add: resolve_threads_def is_int_def)
    show "fw_parallel_reduce global caller_tid worker_tid start e z g f nt
              = Some (for_loop start e (\<lambda>i r. f r (g i)) z)"
      by (rule fw_parallel_reduce_comm_monoid [OF assoc comm idl idr pos d assms(4) t])
  qed
  from one tile two three cover three' four show ?thesis by blast
qed

theorem parallel_reduce_combine_order_witness:
  "monoid_op (@) ([] :: int list) \<and> is_int 0 \<and> is_int 7 \<and> is_int (7 - 0)
   \<and> (3 :: int) = (if (3 :: int) \<le> 0 then get_num_threads 8 else 3)
   \<and> parallel_reduce 8 0 7 [] (@) (replicate 1) 3 = Some [0, 1, 2, 3, 4, 5, 6]
   \<and> parallel_reduce 8 0 7 [] (@) (replicate 1) 3 =
       Some (foldl (@) [] (map (local_fold (@) (replicate 1) []) [(0, 3), (3, 5), (5, 7)]))
   \<and> length (replicate 1002 [7 :: int]) = 1002
   \<and> parallel_reduce_iter 2 (replicate 1002 [7 :: int]) [] (@) =
       foldl (@) [] (map (foldl (@) []) [replicate 501 [7], replicate 501 [7]])
   \<and> parallel_reduce_iter 2 (replicate 1002 [7 :: int]) [] (@) = foldl (@) [] (replicate 1002 [7])
   \<and> fw_parallel_reduce 4 0 Suc 0 8 (0 :: 32 word) word_of_int (+) 4 = Some 28"
proof -
  have m: "monoid_op (@) ([] :: int list)"
    by (simp add: monoid_op_def)
  have p: "monoid_op (+) (0 :: 32 word)"
    by (simp add: monoid_op_def)
  have c: "commutative_op ((+) :: 32 word \<Rightarrow> 32 word \<Rightarrow> 32 word)"
    by (simp add: commutative_op_def)
  have i: "is_int 0" "is_int 7" "is_int (7 - 0)" "is_int 8" "is_int (8 - 0)"
    by (simp_all add: is_int_def)
  have t3: "(3 :: int) = (if (3 :: int) \<le> 0 then get_num_threads 8 else 3)"
    by simp
  have t4: "(4 :: int) = (if (4 :: int) \<le> 0 then get_num_threads 8 else 4)"
    by simp
  have l: "for_loop 0 7 (\<lambda>i r. r @ replicate 1 i) [] = [0, 1, 2, 3, 4, 5, 6]"
    by code_simp
  have "for_loop 0 8 (\<lambda>i r. r + word_of_int i) (0 :: 32 word) = word_of_int (8 * (8 - 1) div 2)"
    by (rule word_triangular_sum) simp
  then have s: "for_loop 0 8 (\<lambda>i r. r + word_of_int i) (0 :: 32 word) = 28"
    by simp
  have parts: "partitions 0 3 7 = [(0, 3), (3, 5), (5, 7)]"
    by code_simp
  have len: "length (replicate 1002 [7 :: int]) = 1002"
    by simp
  have chunks: "iterator_chunks 2 (replicate 1002 [7 :: int]) = [replicate 501 [7], replicate 501 [7]]"
    by (simp add: iterator_chunks_def chunk_of_def upt_conv_Cons)
  have d: "distinct (map (\<lambda>t. int (Suc t) mod resolve_threads 4 4) [0..<nat (resolve_threads 4 4)])"
    by code_simp
  have r: "0 < resolve_threads 4 4" "resolve_threads 4 4 < 2 ^ 30"
    by (simp_all add: resolve_threads_def)
  note a = parallel_reduce_combine_order [OF m i(1) i(2) i(3) t3, where n = 2
      and h = "(@)" and g = "replicate 1" and xs = "replicate 1002 [7]"
      and global = 1 and worker_tid = id and caller_tid = 0]
  note b = parallel_reduce_combine_order [OF p i(1) i(4) i(5) t4, where n = 3
      and h = "(+)" and g = word_of_int and xs = "[]" and global = 4
      and worker_tid = Suc and caller_tid = 0]
  have a1: "parallel_reduce 8 0 7 [] (@) (replicate 1) 3 =
       Some (foldl (@) [] (map (local_fold (@) (replicate 1) []) [(0, 3), (3, 5), (5, 7)]))"
    using a by (elim conjE) (simp add: parts)
  have a2: "parallel_reduce 8 0 7 [] (@) (replicate 1) 3 = Some [0, 1, 2, 3, 4, 5, 6]"
    using a l by (elim conjE) simp
  have a3: "parallel_reduce_iter 2 (replicate 1002 [7 :: int]) [] (@) =
       foldl (@) [] (map (foldl (@) []) [replicate 501 [7], replicate 501 [7]])"
    using a by (elim conjE) (simp add: chunks)
  have a4: "parallel_reduce_iter 2 (replicate 1002 [7 :: int]) [] (@) = foldl (@) [] (replicate 1002 [7])"
    using a by (elim conjE)
  have b4: "fw_parallel_reduce 4 0 Suc 0 8 (0 :: 32 word) word_of_int (+) 4 = Some 28"
    using b c d r s by (elim conjE) simp
  from m i(1,2,3) t3 a1 a2 len a3 a4 b4 show ?thesis
    by (simp only: simp_thms)
qed

text \<open>
  C5. The call \<^verbatim>\<open>parallel_reduce(0, N, 0, identity transform, plus)\<close> deduces both
  the index type and the value type as \<^verbatim>\<open>int\<close>: the accumulator is a 32-bit word and
  addition wraps around. For \<open>N = 1000000\<close> the sum \<open>499999500000\<close> is not an \<^verbatim>\<open>int\<close>;
  the value returned is that sum modulo \<open>2^32\<close>, which is \<open>1783293664\<close>. And the
  reduction of parallel\_framework.h, when the thread count it settles on is 0 (no count
  given and a global thread count of 0), divides by zero.
\<close>

theorem parallel_reduce_int_overflow_counterexample:
  "map_option sint (parallel_reduce 8 0 1000000 (0 :: 32 word) (+) word_of_int 4) = Some 1783293664
   \<and> (1000000 * (1000000 - 1) div 2 :: int) = 499999500000
   \<and> fw_parallel_reduce 0 0 id 0 1000 (0 :: 32 word) word_of_int (+) 0 = None"
proof -
  have "parallel_reduce 8 0 1000000 (0 :: 32 word) (+) word_of_int 4
      = Some (word_of_int (1000000 * (1000000 - 1) div 2))"
    by (rule parallel_reduce_word_sum) (simp_all add: is_int_def)
  then have one: "map_option sint (parallel_reduce 8 0 1000000 (0 :: 32 word) (+) word_of_int 4)
      = Some 1783293664"
    by simp
  have two: "fw_parallel_reduce 0 0 id 0 1000 (0 :: 32 word) word_of_int (+) 0 = None"
    by (simp add: fw_parallel_reduce_def fw_execute_def is_int_def)
  from one two show ?thesis
    by simp
qed

text \<open>
  C5, amended. For \<open>N\<close> among 0, 1, 2, 1000 and 1000000 and any thread count (given or
  defaulted), \<^verbatim>\<open>parallel_reduce\<close> of parallel\_utils.h over \<open>[0, N)\<close> with identity 0,
  the identity transform and addition returns \<open>N (N - 1) / 2\<close> reduced to the value
  type: with a 32-bit \<^verbatim>\<open>int\<close> that is \<open>N (N - 1) / 2\<close> itself for \<open>N\<close> up to 1000 and
  \<open>1783293664\<close> for \<open>N = 1000000\<close>; with a 64-bit value type it is \<open>N (N - 1) / 2\<close> for
  all five. Over the empty range \<open>[0, 0)\<close> it returns the identity element and over
  \<open>[0, 1)\<close> it returns \<^verbatim>\<open>reduce_op(identity, transform_op(0))\<close>, which is
  \<^verbatim>\<open>transform_op(0)\<close> here. \<^verbatim>\<open>parallel_reduce\<close> of parallel\_framework.h returns the
  same values when the thread count is positive (and below \<open>2^30\<close>) and no two workers
  share an accumulator slot.
\<close>

theorem parallel_reduce_triangular_sum:
  assumes "N \<in> {0, 1, 2, 1000, 1000000}"
  shows "parallel_reduce hw 0 N (0 :: 32 word) (+) word_of_int nt = Some (word_of_int (N * (N - 1) div 2))
    \<and> (N \<noteq> 1000000 \<longrightarrow>
         map_option sint (parallel_reduce hw 0 N (0 :: 32 word) (+) word_of_int nt)
           = Some (N * (N - 1) div 2))
    \<and> (N = 1000000 \<longrightarrow>
         map_option sint (parallel_reduce hw 0 N (0 :: 32 word) (+) word_of_int nt)
           = Some 1783293664)
    \<and> map_option sint (parallel_reduce hw 0 N (0 :: 64 word) (+) word_of_int nt)
           = Some (N * (N - 1) div 2)
    \<and> parallel_reduce hw 0 0 z f g nt = Some z
    \<and> parallel_reduce hw 0 1 z f g nt = Some (f z (g 0))
    \<and> parallel_reduce hw 0 1 (0 :: 32 word) (+) word_of_int nt = Some (word_of_int 0)
    \<and> fw_parallel_reduce global caller_tid worker_tid 0 0 z g f nt = Some z
    \<and> (0 < resolve_threads global nt \<and> resolve_threads global nt < 2 ^ 30
         \<and> distinct (map (\<lambda>t. int (worker_tid t) mod resolve_threads global nt)
               [0..<nat (resolve_threads global nt)])
        \<longrightarrow> fw_parallel_reduce global caller_tid worker_tid 0 N (0 :: 32 word) word_of_int (+) nt
              = Some (word_of_int (N * (N - 1) div 2))
          \<and> fw_parallel_reduce global caller_tid worker_tid 0 N (0 :: 64 word) word_of_int (+) nt
              = Some (word_of_int (N * (N - 1) div 2)))"
proof -
  have N: "0 \<le> N" and iN: "is_int N"
    using assms by (auto simp: is_int_def)
  have one: "parallel_reduce hw 0 N (0 :: 32 word) (+) word_of_int nt
      = Some (word_of_int (N * (N - 1) div 2))"
    by (rule parallel_reduce_word_sum [OF N iN])
  have wide: "parallel_reduce hw 0 N (0 :: 64 word) (+) word_of_int nt
      = Some (word_of_int (N * (N - 1) div 2))"
    by (rule parallel_reduce_word_sum [OF N iN])
  have small: "N \<noteq> 1000000 \<longrightarrow>
         map_option sint (parallel_reduce hw 0 N (0 :: 32 word) (+) word_of_int nt)
           = Some (N * (N - 1) div 2)"
    using assms by (auto simp: one)
  have big: "N = 1000000 \<longrightarrow>
         map_option sint (parallel_reduce hw 0 N (0 :: 32 word) (+) word_of_int nt)
           = Some 1783293664"
    using one by auto
  have exact: "map_option sint (parallel_reduce hw 0 N (0 :: 64 word) (+) word_of_int nt)
           = Some (N * (N - 1) div 2)"
    using assms by (auto simp: wide)
  have two: "parallel_reduce hw 0 0 z f g nt = Some z"
    by (simp add: parallel_reduce_def is_int_def)
  have n: "0 < (if nt \<le> 0 then get_num_threads hw else nt)"
    by (simp add: get_num_threads_def)
  have l: "for_loop 0 1 (\<lambda>i r. f r (g i)) z = f z (g 0)"
    by (simp add: for_loop.simps [of 0 1] for_loop.simps [of 1 1])
  have three: "parallel_reduce hw 0 1 z f g nt = Some (f z (g 0))"
    using n l by (auto simp: parallel_reduce_def Let_def local_fold_def is_int_def)
  have four: "parallel_reduce hw 0 1 (0 :: 32 word) (+) word_of_int nt = Some (word_of_int 0)"
    using parallel_reduce_word_sum [of 1 hw nt, where ?'a = 32] by (simp add: is_int_def)
  have five: "fw_parallel_reduce global caller_tid worker_tid 0 0 z g f nt = Some z"
    by (simp add: fw_parallel_reduce_def is_int_def)
  have six: "0 < resolve_threads global nt \<and> resolve_threads global nt < 2 ^ 30
         \<and> distinct (map (\<lambda>t. int (worker_tid t) mod resolve_threads global nt)
               [0..<nat (resolve_threads global nt)])
        \<longrightarrow> fw_parallel_reduce global caller_tid worker_tid 0 N (0 :: 32 word) word_of_int (+) nt
              = Some (word_of_int (N * (N - 1) div 2))
          \<and> fw_parallel_reduce global caller_tid worker_tid 0 N (0 :: 64 word) word_of_int (+) nt
              = Some (word_of_int (N * (N - 1) div 2))"
  proof
    assume h: "0 < resolve_threads global nt \<and> resolve_threads global nt < 2 ^ 30
         \<and> distinct (map (\<lambda>t. int (worker_tid t) mod resolve_threads global nt)
               [0..<nat (resolve_threads global nt)])"
    then have p: "0 < resolve_threads global nt"
      and d: "distinct (map (\<lambda>t. int (worker_tid t) mod resolve_threads global nt)
               [0..<nat (resolve_threads global nt)])"
      and t: "is_int (resolve_threads global nt * 2)"
      by (simp_all add: is_int_def)
    show "fw_parallel_reduce global caller_tid worker_tid 0 N (0 :: 32 word) word_of_int (+) nt
              = Some (word_of_int (N * (N - 1) div 2))
          \<and> fw_parallel_reduce global caller_tid worker_tid 0 N (0 :: 64 word) word_of_int (+) nt
              = Some (word_of_int (N * (N - 1) div 2))"
      using fw_parallel_reduce_word_sum [OF N p d iN t, of caller_tid, where ?'a = 32]
        fw_parallel_reduce_word_sum [OF N p d iN t, of caller_tid, where ?'a = 64]
      by blast
  qed
  from one small big exact two three four five six show ?thesis
    by blast
qed

theorem parallel_reduce_triangular_sum_witness:
  "(1000 :: int) \<in> {0, 1, 2, 1000, 1000000} \<and> (1000000 :: int) \<in> {0, 1, 2, 1000, 1000000}
   \<and> map_option sint (parallel_reduce 8 0 1000 (0 :: 32 word) (+) word_of_int 4) = Some 499500
   \<and> map_option sint (parallel_reduce 8 0 1000000 (0 :: 32 word) (+) word_of_int (- 1))
       = Some 1783293664
   \<and> map_option sint (parallel_reduce 8 0 1000000 (0 :: 64 word) (+) word_of_int (- 1))
       = Some 499999500000
   \<and> map_option sint (parallel_reduce 8 0 2 (0 :: 32 word) (+) word_of_int 2) = Some 1
   \<and> fw_parallel_reduce 4 0 Suc 0 1000 (0 :: 32 word) word_of_int (+) 4 = Some 499500"
proof -
  have h1: "(1000 :: int) \<in> {0, 1, 2, 1000, 1000000}"
    by simp
  have h2: "(1000000 :: int) \<in> {0, 1, 2, 1000, 1000000}"
    by simp
  have h3: "(2 :: int) \<in> {0, 1, 2, 1000, 1000000}"
    by simp
  have r: "0 < resolve_threads 4 4" "resolve_threads 4 4 < 2 ^ 30"
    by (simp_all add: resolve_threads_def)
  have d: "distinct (map (\<lambda>t. int (Suc t) mod resolve_threads 4 4) [0..<nat (resolve_threads 4 4)])"
    by code_simp
  note a = parallel_reduce_triangular_sum [OF h1, where hw = 8 and nt = 4 and z = "0::int"
      and f = "(+)" and g = id and global = 4 and caller_tid = 0 and worker_tid = Suc]
  note b = parallel_reduce_triangular_sum [OF h2, where hw = 8 and nt = "- 1" and z = "0::int"
      and f = "(+)" and g = id and global = 4 and caller_tid = 0 and worker_tid = Suc]
  note c = parallel_reduce_triangular_sum [OF h3, where hw = 8 and nt = 2 and z = "0::int"
      and f = "(+)" and g = id and global = 4 and caller_tid = 0 and worker_tid = Suc]
  have a1: "map_option sint (parallel_reduce 8 0 1000 (0 :: 32 word) (+) word_of_int 4) = Some 499500"
    using a by (elim conjE) simp
  have a2: "fw_parallel_reduce 4 0 Suc 0 1000 (0 :: 32 word) word_of_int (+) 4 = Some 499500"
    using a r d by (elim conjE) simp
  have b1: "map_option sint (parallel_reduce 8 0 1000000 (0 :: 32 word) (+) word_of_int (- 1))
       = Some 1783293664"
    using b by (elim conjE) simp
  have b2: "map_option sint (parallel_reduce 8 0 1000000 (0 :: 64 word) (+) word_of_int (- 1))
       = Some 499999500000"
    using b by (elim conjE) simp
  have c1: "map_option sint (parallel_reduce 8 0 2 (0 :: 32 word) (+) word_of_int 2) = Some 1"
    using c by (elim conjE) simp
  from h1 h2 a1 a2 b1 b2 c1 show ?thesis
    by simp
qed

text \<open>
  C6. A chunk size of zero is to be rejected or replaced by a default, and the call is
  to terminate. \<^verbatim>\<open>parallel_for_static\<close> replaces it (and then returns, unless the
  active thread count makes the default divide by zero). \<^verbatim>\<open>parallel_for_dynamic\<close>
  does neither: over a non-empty range on a pool of more than one worker, no schedule
  brings the call to its return; every task claims the empty chunk at \<^verbatim>\<open>start\<close> again
  and again, so executions of any length exist, none of them invokes the body and none
  of them ends a task.
\<close>

theorem zero_chunk_size_dynamic_never_returns:
  assumes "start < e" and "1 < n"
  shows "parallel_for_dynamic n start e 0 sched = None
    \<and> (\<exists>s. run_dynamic e 0 (replicate k 0)
               \<lparr>next_chunk = start, claimers = replicate n Claim, visited = []\<rparr> = Some s
            \<and> visited s = [] \<and> next_chunk s = start \<and> \<not> all_finished s)
    \<and> (run_dynamic e 0 sched
          \<lparr>next_chunk = start, claimers = replicate n Claim, visited = []\<rparr> = Some s'
        \<longrightarrow> visited s' = [] \<and> next_chunk s' = start \<and> \<not> all_finished s'
            \<and> (\<exists>s''. dynamic_step e 0 0 s' = Some s''))
    \<and> auto_chunk_size a start e 0 = max 1 ((e - start) div ((a * 4) mod 2 ^ 32))
    \<and> (\<exists>sched' trace'. parallel_for_static a n (\<lambda>i. False) start e 0 sched'
          = Some (if (a * 4) mod 2 ^ 32 = 0 then Inl DivisionByZero else Inr (), trace'))"
proof -
  define s0 where "s0 = \<lparr>next_chunk = start, claimers = replicate n Claim, visited = []\<rparr>"
  have n: "0 < n" using assms(2) by simp
  have st: "stuck start n s0"
    by (auto simp: stuck_iff s0_def)
  have one: "parallel_for_dynamic n start e 0 sched = None"
    using assms by (rule parallel_for_dynamic_zero_chunk)
  obtain s where s: "run_dynamic e 0 (replicate k 0) s0 = Some s"
    using stuck_forever [OF assms(1) n st] by blast
  have "stuck start n s"
    using stuck_run [OF assms(1) s st] .
  then have two: "\<exists>s. run_dynamic e 0 (replicate k 0) s0 = Some s
            \<and> visited s = [] \<and> next_chunk s = start \<and> \<not> all_finished s"
    using s stuck_not_finished [OF _ n] by (auto simp: stuck_iff)
  have three: "run_dynamic e 0 sched s0 = Some s'
        \<longrightarrow> visited s' = [] \<and> next_chunk s' = start \<and> \<not> all_finished s'
            \<and> (\<exists>s''. dynamic_step e 0 0 s' = Some s'')"
  proof
    assume "run_dynamic e 0 sched s0 = Some s'"
    then have st': "stuck start n s'"
      using stuck_run [OF assms(1) _ st] by blast
    then show "visited s' = [] \<and> next_chunk s' = start \<and> \<not> all_finished s'
            \<and> (\<exists>s''. dynamic_step e 0 0 s' = Some s'')"
      using stuck_not_finished [OF st' n] stuck_step [OF st' assms(1) n]
      by (auto simp: stuck_iff)
  qed
  have four: "auto_chunk_size a start e 0 = max 1 ((e - start) div ((a * 4) mod 2 ^ 32))"
    by (simp add: auto_chunk_size_def)
  have five: "\<exists>sched' trace'. parallel_for_static a n (\<lambda>i. False) start e 0 sched'
          = Some (if (a * 4) mod 2 ^ 32 = 0 then Inl DivisionByZero else Inr (), trace')"
  proof (cases "(a * 4) mod 2 ^ 32 = 0")
    case True
    then have "parallel_for_static a n (\<lambda>i. False) start e 0 [] = Some (Inl DivisionByZero, [])"
      using assms(1) by (simp add: parallel_for_static_def)
    then show ?thesis using True by auto
  next
    case False
    then show ?thesis
      using parallel_for_static_returns [of 0 a n start e] by auto
  qed
  from one two three four five show ?thesis
    unfolding s0_def by blast
qed

theorem zero_chunk_size_dynamic_never_returns_witness:
  "(0::nat) < 2 \<and> (1::nat) < 2
   \<and> parallel_for_dynamic 2 0 2 0 [0, 1, 0, 1] = None
   \<and> run_dynamic 2 0 [0, 1, 0, 1] \<lparr>next_chunk = 0, claimers = replicate 2 Claim, visited = []\<rparr>
       = Some \<lparr>next_chunk = 0, claimers = [Claim, Claim], visited = []\<rparr>
   \<and> auto_chunk_size 1 0 2 0 = 1
   \<and> parallel_for_static 1 2 (\<lambda>i. False) 0 2 0 [0, 1] = Some (Inr (), [0, 1])"
proof -
  have h1: "(0::nat) < 2" and h2: "(1::nat) < 2"
    by simp_all
  have run: "run_dynamic 2 0 [0, 1, 0, 1]
      \<lparr>next_chunk = 0, claimers = replicate 2 Claim, visited = []\<rparr>
       = Some \<lparr>next_chunk = 0, claimers = [Claim, Claim], visited = []\<rparr>"
    by code_simp
  have chunks: "static_chunks 0 2 (Suc 0) [] = Some [(0, 1), (1, 2)]"
    by (simp add: static_chunks.simps)
  have a: "auto_chunk_size 1 0 2 0 = 1"
    by (simp add: auto_chunk_size_def)
  have s: "parallel_for_static 1 2 (\<lambda>i. False) 0 2 0 [0, 1] = Some (Inr (), [0, 1])"
    by (simp add: parallel_for_static_def auto_chunk_size_def chunks await_all_def upt_conv_Cons)
  have "parallel_for_dynamic 2 0 2 0 [0, 1, 0, 1] = None"
    using zero_chunk_size_dynamic_never_returns [OF h1 h2, where sched = "[0, 1, 0, 1]"
        and k = 0 and a = 1 and s' = "\<lparr>next_chunk = 0, claimers = [], visited = []\<rparr>"]
    by (elim conjE)
  with h1 h2 run a s show ?thesis
    by (simp only: simp_thms)
qed

text \<open>
  C7. A worker leaves its loop only when the stop flag is set and the queue is empty.
  Hence, whatever the interleaving of workers, submitters and destructor: when the
  destructor's join gets through (every worker has returned), each task that was in the
  queue or running at any earlier moment at which no worker had yet returned has run to
  completion; in particular every task submitted to a constructed pool before the stop
  signal has. After the stop signal the workers cannot stall before all have returned,
  each of their steps uses up one unit of a finite measure, and an execution that
  reaches the join exists; a constructed pool has at least one worker.
\<close>

theorem shutdown_drains_queue:
  "(pool_step (Wake w) p = Some p' \<and> workers p' ! w = Exited \<longrightarrow> stop p \<and> tasks p = [])
   \<and> (run_pool evs p = Some p' \<and> Exited \<notin> set (workers p) \<and> workers p \<noteq> [] \<and> joined p' \<longrightarrow>
        mset (completed p) + mset (busy p) + mset (tasks p) \<subseteq># mset (completed p'))
   \<and> (run_pool (pre @ Stop # post) (ThreadPool n hw) = Some p' \<and> Stop \<notin> set pre \<and> joined p' \<longrightarrow>
        mset (submitted pre) \<subseteq># mset (completed p'))
   \<and> (stop p \<and> \<not> joined p \<longrightarrow> (\<exists>ev q. worker_event ev \<and> pool_step ev p = Some q))
   \<and> (list_all worker_event evs \<and> run_pool evs p = Some p' \<longrightarrow>
        length evs + pool_measure p' = pool_measure p)
   \<and> (stop p \<longrightarrow> (\<exists>evs' q. list_all worker_event evs' \<and> run_pool evs' p = Some q \<and> joined q))
   \<and> workers (ThreadPool n hw :: 'a thread_pool) \<noteq> []"
proof -
  have one: "pool_step (Wake w) p = Some p' \<and> workers p' ! w = Exited \<longrightarrow> stop p \<and> tasks p = []"
    using exit_needs_stop_and_empty_queue [of w p p'] by blast
  have two: "run_pool evs p = Some p' \<and> Exited \<notin> set (workers p) \<and> workers p \<noteq> [] \<and> joined p' \<longrightarrow>
        mset (completed p) + mset (busy p) + mset (tasks p) \<subseteq># mset (completed p')"
    using shutdown_drains [of evs p p'] by blast
  have three: "run_pool (pre @ Stop # post) (ThreadPool n hw) = Some p' \<and> Stop \<notin> set pre \<and> joined p' \<longrightarrow>
        mset (submitted pre) \<subseteq># mset (completed p')"
    using queued_before_shutdown_completed [of pre post n hw p'] by blast
  have four: "stop p \<and> \<not> joined p \<longrightarrow> (\<exists>ev q. worker_event ev \<and> pool_step ev p = Some q)"
    using stopped_worker_enabled [of p] by blast
  have five: "list_all worker_event evs \<and> run_pool evs p = Some p' \<longrightarrow>
        length evs + pool_measure p' = pool_measure p"
    using worker_run_length [of evs p p'] by blast
  have six: "stop p \<longrightarrow> (\<exists>evs' q. list_all worker_event evs' \<and> run_pool evs' p = Some q \<and> joined q)"
    using stopped_pool_joins [of p] by blast
  have seven: "workers (ThreadPool n hw :: 'a thread_pool) \<noteq> []"
    by (rule ThreadPool_fresh(1))
  from one two three four five six seven show ?thesis
    by blast
qed

theorem shutdown_drains_queue_witness:
  "run_pool ([Enqueue 10, Enqueue 20, Enqueue 30]
              @ Stop # [Wake 0, Wake 1, Return 1, Wake 1, Return 0, Wake 0, Return 1, Wake 1])
      (ThreadPool 2 0)
     = Some \<lparr>workers = [Exited, Exited], tasks = [], stop = True, completed = [20, 10, 30 :: nat]\<rparr>
   \<and> Stop \<notin> set [Enqueue 10, Enqueue 20, Enqueue (30 :: nat)]
   \<and> joined \<lparr>workers = [Exited, Exited], tasks = [], stop = True, completed = [20, 10, 30 :: nat]\<rparr>
   \<and> mset (submitted [Enqueue 10, Enqueue 20, Enqueue 30]) \<subseteq># mset [20, 10, 30 :: nat]
   \<and> pool_step (Wake 0) \<lparr>workers = [Idle, Idle], tasks = [10 :: nat], stop = True, completed = []\<rparr>
       = Some \<lparr>workers = [Busy 10, Idle], tasks = [], stop = True, completed = []\<rparr>"
proof -
  define final :: "nat thread_pool" where
    "final = \<lparr>workers = [Exited, Exited], tasks = [], stop = True, completed = [20, 10, 30]\<rparr>"
  have run: "run_pool ([Enqueue 10, Enqueue 20, Enqueue 30]
              @ Stop # [Wake 0, Wake 1, Return 1, Wake 1, Return 0, Wake 0, Return 1, Wake 1])
      (ThreadPool 2 0) = Some final"
    unfolding final_def by code_simp
  have pre: "Stop \<notin> set [Enqueue 10, Enqueue 20, Enqueue (30 :: nat)]"
    by simp
  have j: "joined final"
    by (simp add: joined_def final_def)
  have c: "completed final = [20, 10, 30]"
    by (simp add: final_def)
  have step: "pool_step (Wake 0) \<lparr>workers = [Idle, Idle], tasks = [10 :: nat], stop = True, completed = []\<rparr>
       = Some \<lparr>workers = [Busy 10, Idle], tasks = [], stop = True, completed = []\<rparr>"
    by (simp add: worker_wake_def)
  note t = shutdown_drains_queue [where pre = "[Enqueue 10, Enqueue 20, Enqueue (30 :: nat)]"
      and post = "[Wake 0, Wake 1, Return 1, Wake 1, Return 0, Wake 0, Return 1, Wake 1]"
      and n = 2 and hw = 0 and p' = final and p = final and evs = "[]" and w = 0]
  have "mset (submitted [Enqueue 10, Enqueue 20, Enqueue 30]) \<subseteq># mset (completed final)"
    using t run pre j by blast
  then have sub: "mset (submitted [Enqueue 10, Enqueue 20, Enqueue 30]) \<subseteq># mset [20, 10, 30 :: nat]"
    by (simp only: c)
  from run pre j sub step show ?thesis
    unfolding final_def by (simp only: simp_thms)
qed




text \<open>
  C9. \<^verbatim>\<open>single_executor::execute\<close> runs the supplied function exactly once per phase.
  Starting a phase with the flag clear, whatever number of callers follow in whatever
  order, only the function of the first caller is applied, and it is applied once; every
  call that finds the flag set changes nothing; after \<^verbatim>\<open>reset()\<close> the next phase again
  applies exactly the function of its first caller. With the step counter \<open>Suc\<close> as the
  function, the count of runs over two phases of \<open>1 + length fns\<close> and
  \<open>1 + length gns\<close> calls is 2.
\<close>

theorem single_executor_once_per_phase:
  "execute_calls (fn # fns) (False, s) = (True, fn s)
   \<and> execute_calls fns (True, s) = (True, s)
   \<and> execute_calls (gn # gns) (reset (execute_calls (fn # fns) (False, s))) = (True, gn (fn s))
   \<and> execute_calls (Suc # replicate j Suc)
        (reset (execute_calls (Suc # replicate k Suc) (False, 0))) = (True, 2)"
proof -
  have one: "\<And>f fs (x::'b). execute_calls (f # fs) (False, x) = (True, f x)"
    by (simp add: execute_def compare_exchange_strong_def execute_calls_set)
  show ?thesis
    by (simp only: one reset_def execute_calls_set snd_conv) simp
qed

text \<open>
  C10. The claim fails in two ways. The thread id is an \<^verbatim>\<open>int\<close> handed out by an
  atomic counter; once it has wrapped to a negative value, the conversion to
  \<^verbatim>\<open>size_t\<close> adds \<open>2^64\<close> before the remainder is taken, and the slot is no longer the
  id modulo the number of slots: with 7 slots the id \<open>-1\<close> gets slot 1, while the id 6,
  congruent to it modulo 7, gets slot 6. And a reduction variable built while the global
  thread count is 0 has no slot at all, so that the remainder is a division by zero.
\<close>

theorem local_slot_wrapped_id_counterexample:
  "local_index (- 1) 7 = Some 1 \<and> local_index 6 7 = Some 6
   \<and> sint (- 1 :: 32 word) mod 7 = sint (6 :: 32 word) mod 7
   \<and> local_index 0 0 = None"
  by (simp add: local_index_def)

text \<open>
  C10, amended. With a non-empty slot vector, \<^verbatim>\<open>local()\<close> always indexes inside the
  vector, whatever the thread id: the index is the id, read as a \<^verbatim>\<open>size_t\<close>, modulo the
  number of slots; that is the id modulo the number of slots for a non-negative id and
  the id plus \<open>2^64\<close> modulo the number of slots for an id that has wrapped to a negative
  value. Two threads get the same slot exactly when their ids read as \<^verbatim>\<open>size_t\<close> are
  congruent modulo the number of slots; so non-negative ids that are congruent modulo the
  number of slots share a slot, and distinct non-negative ids below the number of slots
  get distinct slots.
\<close>

theorem local_slot_index:
  assumes "sz \<noteq> 0"
  shows "(\<exists>k. local_index t sz = Some k \<and> unat k < unat sz
              \<and> unat k = nat (sint t mod 2 ^ 64) mod unat sz
              \<and> (0 \<le> sint t \<longrightarrow> unat k = nat (sint t) mod unat sz)
              \<and> (sint t < 0 \<longrightarrow> unat k = nat (2 ^ 64 + sint t) mod unat sz))
    \<and> (local_index t sz = local_index u sz
          \<longleftrightarrow> nat (sint t mod 2 ^ 64) mod unat sz = nat (sint u mod 2 ^ 64) mod unat sz)
    \<and> (0 \<le> sint t \<and> 0 \<le> sint u \<and> nat (sint t) mod unat sz = nat (sint u) mod unat sz
          \<longrightarrow> local_index t sz = local_index u sz)
    \<and> (0 \<le> sint t \<and> 0 \<le> sint u \<and> nat (sint t) < unat sz \<and> nat (sint u) < unat sz \<and> t \<noteq> u
          \<longrightarrow> local_index t sz \<noteq> local_index u sz)"
proof -
  obtain k where k: "local_index t sz = Some k" "unat k < unat sz"
      "unat k = unat (scast t :: 64 word) mod unat sz"
    using local_index_unat [OF assms, of t] by blast
  obtain j where j: "local_index u sz = Some j" "unat j < unat sz"
      "unat j = unat (scast u :: 64 word) mod unat sz"
    using local_index_unat [OF assms, of u] by blast
  have kg: "unat k = nat (sint t mod 2 ^ 64) mod unat sz"
    using k(3) by (simp only: unat_scast)
  have jg: "unat j = nat (sint u mod 2 ^ 64) mod unat sz"
    using j(3) by (simp only: unat_scast)
  have kt: "0 \<le> sint t \<Longrightarrow> unat k = nat (sint t) mod unat sz"
    using k(3) by (simp add: unat_scast_nonneg)
  have kn: "sint t < 0 \<Longrightarrow> unat k = nat (2 ^ 64 + sint t) mod unat sz"
    using k(3) by (simp only: unat_scast_neg)
  have ju: "0 \<le> sint u \<Longrightarrow> unat j = nat (sint u) mod unat sz"
    using j(3) by (simp add: unat_scast_nonneg)
  have first: "\<exists>k. local_index t sz = Some k \<and> unat k < unat sz
              \<and> unat k = nat (sint t mod 2 ^ 64) mod unat sz
              \<and> (0 \<le> sint t \<longrightarrow> unat k = nat (sint t) mod unat sz)
              \<and> (sint t < 0 \<longrightarrow> unat k = nat (2 ^ 64 + sint t) mod unat sz)"
    using k kg kt kn by blast
  have "local_index t sz = local_index u sz \<longleftrightarrow> k = j"
    using k(1) j(1) by simp
  also have "\<dots> \<longleftrightarrow> unat k = unat j"
    by (simp add: word_unat_eq_iff)
  finally have same: "local_index t sz = local_index u sz
          \<longleftrightarrow> nat (sint t mod 2 ^ 64) mod unat sz = nat (sint u mod 2 ^ 64) mod unat sz"
    by (simp only: kg jg)
  have second: "0 \<le> sint t \<and> 0 \<le> sint u \<and> nat (sint t) mod unat sz = nat (sint u) mod unat sz
          \<longrightarrow> local_index t sz = local_index u sz"
  proof
    assume h: "0 \<le> sint t \<and> 0 \<le> sint u \<and> nat (sint t) mod unat sz = nat (sint u) mod unat sz"
    then have "unat k = unat j"
      using kt ju by simp
    then have "k = j"
      by (simp add: word_unat_eq_iff)
    then show "local_index t sz = local_index u sz"
      using k(1) j(1) by simp
  qed
  have third: "0 \<le> sint t \<and> 0 \<le> sint u \<and> nat (sint t) < unat sz \<and> nat (sint u) < unat sz \<and> t \<noteq> u
          \<longrightarrow> local_index t sz \<noteq> local_index u sz"
  proof
    assume h: "0 \<le> sint t \<and> 0 \<le> sint u \<and> nat (sint t) < unat sz \<and> nat (sint u) < unat sz \<and> t \<noteq> u"
    have "sint t \<noteq> sint u"
      using h signed_word_eqI [of t u] by blast
    then have "nat (sint t) \<noteq> nat (sint u)"
      using h by (simp add: eq_nat_nat_iff)
    then have "unat k \<noteq> unat j"
      using kt ju h by simp
    then show "local_index t sz \<noteq> local_index u sz"
      using k(1) j(1) by auto
  qed
  from first same second third show ?thesis
    by blast
qed

theorem local_slot_index_witness:
  "(4 :: 64 word) \<noteq> 0
   \<and> local_index 6 4 = Some 2 \<and> local_index 2 4 = Some 2
   \<and> local_index 1 4 \<noteq> local_index 2 4
   \<and> (7 :: 64 word) \<noteq> 0 \<and> local_index (- 1) 7 = Some 1
   \<and> nat (2 ^ 64 + sint (- 1 :: 32 word)) mod unat (7 :: 64 word) = 1"
  using local_slot_index [of 4 6 2] local_slot_index [of 4 1 2] local_slot_index [of 7 "- 1" 6]
  by (simp add: local_index_def)

end
